theory Spec2Isabelle
  imports Complex_Main "HOL-Library.Sublist"
begin

section \<open>Street-cleaning schedules: the data model\<close>

text \<open>
  The dataclass \<^verbatim>\<open>CleaningSchedule\<close> of \<^verbatim>\<open>backend/parser.py\<close>: five fields of Python's
  unbounded integers, the first a list. The dataclass checks nothing when it is built: the
  comment on \<^verbatim>\<open>days\<close> (\<^verbatim>\<open>0=Monday .. 6=Sunday\<close>) is the only range the source states.
\<close>

record CleaningSchedule =
  days :: "int list"
  start_hour :: int
  start_minute :: int
  end_hour :: int
  end_minute :: int

text \<open>
  What \<^verbatim>\<open>hours_until_next_cleaning\<close> reads of its argument \<^verbatim>\<open>now\<close>: \<^verbatim>\<open>now.weekday()\<close>,
  \<^verbatim>\<open>now.hour\<close> and \<^verbatim>\<open>now.minute\<close>. When \<^verbatim>\<open>now\<close> is \<^verbatim>\<open>None\<close> the source reads the clock, and
  a naive value gets the New York zone attached with \<^verbatim>\<open>replace\<close>, which leaves the three
  readings as they are; the model starts from the readings. Python's \<^verbatim>\<open>datetime\<close> refuses
  to build a value outside the ranges of \<open>valid_datetime\<close>.
\<close>

record datetime =
  weekday :: int
  hour :: int
  minute :: int

definition valid_datetime :: "datetime \<Rightarrow> bool" where
  "valid_datetime now \<longleftrightarrow>
     0 \<le> weekday now \<and> weekday now \<le> 6 \<and>
     0 \<le> hour now \<and> hour now \<le> 23 \<and>
     0 \<le> minute now \<and> minute now \<le> 59"

text \<open>
  The result is a Python float: either a quotient \<^verbatim>\<open>n / 60.0\<close> of an integer number of
  minutes, or \<^verbatim>\<open>float("inf")\<close>. The quotient is kept as the exact rational it denotes;
  \<^verbatim>\<open>0.0\<close> is \<open>Finite 0\<close>.
\<close>

datatype pyfloat = Finite rat | Infinity

section \<open>The next-occurrence calculator (\<^verbatim>\<open>backend/scheduler.py\<close>)\<close>

text \<open>
  The body of \<^verbatim>\<open>for day_offset in range(8)\<close>, run over the offsets still to visit.
  \<^verbatim>\<open>continue\<close> is the recursive call on the remaining offsets, \<^verbatim>\<open>return\<close> ends the
  recursion, and leaving the loop returns \<^verbatim>\<open>float("inf")\<close>.
\<close>

fun offsets_loop ::
  "CleaningSchedule \<Rightarrow> int \<Rightarrow> int \<Rightarrow> int \<Rightarrow> int \<Rightarrow> int list \<Rightarrow> pyfloat" where
  "offsets_loop schedule current_weekday current_minutes start_minutes end_minutes [] = Infinity"
| "offsets_loop schedule current_weekday current_minutes start_minutes end_minutes
     (day_offset # later) =
     (let check_day = (current_weekday + day_offset) mod 7 in
      if check_day \<notin> set (days schedule) then
        offsets_loop schedule current_weekday current_minutes start_minutes end_minutes later
      else if day_offset = 0 then
        (if start_minutes \<le> current_minutes \<and> current_minutes < end_minutes then Finite 0
         else if current_minutes < start_minutes then
           Finite (of_int (start_minutes - current_minutes) / 60)
         else
           offsets_loop schedule current_weekday current_minutes start_minutes end_minutes later)
      else
        Finite (of_int (day_offset * 24 * 60 + start_minutes - current_minutes) / 60))"

definition range8 :: "int list" where
  "range8 = [0, 1, 2, 3, 4, 5, 6, 7]"

definition start_minutes_of :: "CleaningSchedule \<Rightarrow> int" where
  "start_minutes_of schedule = start_hour schedule * 60 + start_minute schedule"

definition end_minutes_of :: "CleaningSchedule \<Rightarrow> int" where
  "end_minutes_of schedule = end_hour schedule * 60 + end_minute schedule"

definition current_minutes_of :: "datetime \<Rightarrow> int" where
  "current_minutes_of now = hour now * 60 + minute now"

definition hours_until_next_cleaning :: "CleaningSchedule \<Rightarrow> datetime \<Rightarrow> pyfloat" where
  "hours_until_next_cleaning schedule now =
     offsets_loop schedule (weekday now) (current_minutes_of now)
       (start_minutes_of schedule) (end_minutes_of schedule) range8"

section \<open>Text primitives\<close>

text \<open>
  Sign descriptions are modelled as ASCII text: one \<open>char\<close> is one character of the Python
  string. The character classes below are those of Python's \<^verbatim>\<open>str\<close> methods and of the
  \<^verbatim>\<open>re\<close> module on the ASCII range: \<^verbatim>\<open>\d\<close> is a decimal digit, \<^verbatim>\<open>\w\<close> a letter, a digit or
  the underscore, and \<^verbatim>\<open>\s\<close> (also what \<^verbatim>\<open>strip\<close> removes) the blank, the controls 9 to 13
  and the separators 28 to 31. \<^verbatim>\<open>upper\<close> changes the 26 small letters and nothing else.
  What Python does with characters beyond ASCII (other digits, spaces and letters of
  Unicode, their upper case and their matching under \<^verbatim>\<open>re.IGNORECASE\<close>) is outside the model:
  the definitions below say what the code does on ASCII text, \<open>ascii_text\<close> is that
  condition, and a statement that would not hold of the code beyond it assumes it.
\<close>

definition ascii_text :: "string \<Rightarrow> bool" where
  "ascii_text s \<longleftrightarrow> list_all (\<lambda>c. (of_char c :: nat) < 128) s"

definition is_digit :: "char \<Rightarrow> bool" where
  "is_digit c \<longleftrightarrow> c \<in> set ''0123456789''"

definition is_space :: "char \<Rightarrow> bool" where
  "is_space c \<longleftrightarrow>
     c \<in> set [CHR '' '', CHR 0x09, CHR 0x0A, CHR 0x0B, CHR 0x0C, CHR 0x0D,
               CHR 0x1C, CHR 0x1D, CHR 0x1E, CHR 0x1F]"

definition is_word :: "char \<Rightarrow> bool" where
  "is_word c \<longleftrightarrow>
     c \<in> set ''abcdefghijklmnopqrstuvwxyzABCDEFGHIJKLMNOPQRSTUVWXYZ0123456789_''"

definition upper_char :: "char \<Rightarrow> char" where
  "upper_char c =
     (case map_of (zip ''abcdefghijklmnopqrstuvwxyz'' ''ABCDEFGHIJKLMNOPQRSTUVWXYZ'') c of
        Some u \<Rightarrow> u
      | None \<Rightarrow> c)"

text \<open>\<^verbatim>\<open>s.upper()\<close>, \<^verbatim>\<open>s.strip()\<close>, \<^verbatim>\<open>s.endswith(suffix)\<close> and \<^verbatim>\<open>sub in s\<close>.\<close>

definition upper :: "string \<Rightarrow> string" where
  "upper s = map upper_char s"

definition strip :: "string \<Rightarrow> string" where
  "strip s = rev (dropWhile is_space (rev (dropWhile is_space s)))"

definition endswith :: "string \<Rightarrow> string \<Rightarrow> bool" where
  "endswith s suf \<longleftrightarrow> suffix suf s"

fun str_in :: "string \<Rightarrow> string \<Rightarrow> bool" where
  "str_in sub [] \<longleftrightarrow> sub = []"
| "str_in sub (c # cs) \<longleftrightarrow> prefix sub (c # cs) \<or> str_in sub cs"

text \<open>
  \<^verbatim>\<open>s.replace(old, "")\<close>: every occurrence of \<open>old\<close> is deleted, scanning from the left and
  resuming after each occurrence. With an empty \<open>old\<close> Python puts the (empty) replacement
  between the characters, which leaves \<open>s\<close> as it is.
\<close>

function str_remove :: "string \<Rightarrow> string \<Rightarrow> string" where
  "str_remove old [] = []"
| "str_remove old (c # cs) =
     (if old \<noteq> [] \<and> prefix old (c # cs) then str_remove old (drop (length old) (c # cs))
      else c # str_remove old cs)"
  by pat_completeness auto
termination
  by (relation "measure (\<lambda>(old, s). length s)") auto

text \<open>\<^verbatim>\<open>s.split(sep)\<close> for a separator of one character.\<close>

fun split_on :: "char \<Rightarrow> string \<Rightarrow> string list" where
  "split_on sep [] = [[]]"
| "split_on sep (c # cs) =
     (if c = sep then [] # split_on sep cs
      else (case split_on sep cs of
              [] \<Rightarrow> [[c]]
            | part # parts \<Rightarrow> (c # part) # parts))"

text \<open>
  The exceptions the parser's code can raise. \<^verbatim>\<open>int(s)\<close> is modelled on the strings the
  parser passes to it, which are cut out of a matched time token: a non-empty string of
  decimal digits has its decimal value, any other string raises \<^verbatim>\<open>ValueError\<close> here.
\<close>

datatype exn = ValueError | KeyError

definition digit_value :: "char \<Rightarrow> int" where
  "digit_value c = int (of_char c) - 48"

definition decimal :: "string \<Rightarrow> int" where
  "decimal s = foldl (\<lambda>acc c. 10 * acc + digit_value c) 0 s"

definition py_int :: "string \<Rightarrow> exn + int" where
  "py_int s = (if s \<noteq> [] \<and> list_all is_digit s then Inr (decimal s) else Inl ValueError)"

section \<open>The description parser (\<^verbatim>\<open>backend/parser.py\<close>)\<close>

text \<open>
  \<^verbatim>\<open>DAYS_OF_WEEK\<close> is a dictionary whose insertion order is used twice (the loop over
  \<^verbatim>\<open>items()\<close> and the alternation of \<^verbatim>\<open>DAY_RE\<close>), so it is an association list.
\<close>

definition DAYS_OF_WEEK :: "(string \<times> int) list" where
  "DAYS_OF_WEEK =
     [(''MONDAY'', 0), (''TUESDAY'', 1), (''WEDNESDAY'', 2), (''THURSDAY'', 3),
      (''FRIDAY'', 4), (''SATURDAY'', 5), (''SUNDAY'', 6)]"

subsection \<open>The regular expressions\<close>

text \<open>
  Python's \<^verbatim>\<open>re\<close> is a backtracking matcher. Each piece of a pattern is modelled by the
  list of ways it can match at the start of a text, in the order the matcher tries them
  (a greedy piece offers its longest match first); a sequence of pieces is the list
  comprehension over its parts, so the head of the list is the match Python reports.
  A piece yields the text still to be read, with the text it consumed where that is a
  group.
\<close>

definition re_lit :: "string \<Rightarrow> string \<Rightarrow> string list" where
  "re_lit lit s = (if prefix lit s then [drop (length lit) s] else [])"

definition re_lit_ic :: "string \<Rightarrow> string \<Rightarrow> (string \<times> string) list" where
  \<comment> \<open>a literal of capitals under \<^verbatim>\<open>re.IGNORECASE\<close>, as it matches ASCII text\<close>
  "re_lit_ic lit s =
     (if length lit \<le> length s \<and> upper (take (length lit) s) = lit
      then [(take (length lit) s, drop (length lit) s)] else [])"

definition re_many :: "(char \<Rightarrow> bool) \<Rightarrow> nat \<Rightarrow> string \<Rightarrow> string list" where
  \<comment> \<open>\<^verbatim>\<open>c*\<close> for \<open>least = 0\<close> and \<^verbatim>\<open>c+\<close> for \<open>least = 1\<close>, greedy\<close>
  "re_many cls least s =
     [drop k s. k \<leftarrow> rev [least ..< Suc (length (takeWhile cls s))]]"

definition re_digits12 :: "string \<Rightarrow> (string \<times> string) list" where
  \<comment> \<open>\<^verbatim>\<open>\d{1,2}\<close>, greedy\<close>
  "re_digits12 s =
     [(take k s, drop k s). k \<leftarrow> rev [1 ..< Suc (min 2 (length (takeWhile is_digit s)))]]"

definition re_opt_minutes :: "string \<Rightarrow> (string \<times> string) list" where
  \<comment> \<open>\<^verbatim>\<open>(?::\d{2})?\<close>: first with the group, then without\<close>
  "re_opt_minutes s =
     [(CHR '':'' # take 2 r, drop 2 r).
        r \<leftarrow> re_lit '':'' s, 2 \<le> length r \<and> list_all is_digit (take 2 r)]
     @ [([], s)]"

definition re_ampm :: "string \<Rightarrow> (string \<times> string) list" where
  \<comment> \<open>\<^verbatim>\<open>(?:AM|PM)\<close> under \<^verbatim>\<open>re.IGNORECASE\<close>\<close>
  "re_ampm s = re_lit_ic ''AM'' s @ re_lit_ic ''PM'' s"

definition re_time_token :: "string \<Rightarrow> (string \<times> string) list" where
  \<comment> \<open>\<^verbatim>\<open>(\d{1,2}(?::\d{2})?(?:AM|PM))\<close>\<close>
  "re_time_token s =
     [(h @ m @ ap, r3). (h, r1) \<leftarrow> re_digits12 s, (m, r2) \<leftarrow> re_opt_minutes r1,
                        (ap, r3) \<leftarrow> re_ampm r2]"

definition TIME_RE_at :: "string \<Rightarrow> (string \<times> string) list" where
  \<comment> \<open>the two groups of each way \<^verbatim>\<open>TIME_RE\<close> matches at the start of the text\<close>
  "TIME_RE_at s =
     [(g1, g2). (g1, r1) \<leftarrow> re_time_token s, r2 \<leftarrow> re_many is_space 0 r1,
                r3 \<leftarrow> re_lit ''-'' r2, r4 \<leftarrow> re_many is_space 0 r3,
                (g2, r5) \<leftarrow> re_time_token r4]"

text \<open>\<^verbatim>\<open>TIME_RE.search(desc)\<close>: the first match at the leftmost position that has one.\<close>

fun TIME_RE_search :: "string \<Rightarrow> (string \<times> string) option" where
  "TIME_RE_search [] = (case TIME_RE_at [] of [] \<Rightarrow> None | m # _ \<Rightarrow> Some m)"
| "TIME_RE_search (c # cs) =
     (case TIME_RE_at (c # cs) of [] \<Rightarrow> TIME_RE_search cs | m # _ \<Rightarrow> Some m)"

text \<open>
  \<^verbatim>\<open>\b\<close> holds between two positions of which exactly one is a word character; the ends
  of the text count as non-word. \<open>prev\<close> is the character before the position, if any.
\<close>

definition word_boundary :: "char option \<Rightarrow> string \<Rightarrow> bool" where
  "word_boundary prev s \<longleftrightarrow>
     (case prev of None \<Rightarrow> False | Some p \<Rightarrow> is_word p)
       \<noteq> (case s of [] \<Rightarrow> False | c # _ \<Rightarrow> is_word c)"

definition DAY_RE_at :: "char option \<Rightarrow> string \<Rightarrow> string list" where
  \<comment> \<open>group 1 of each way \<^verbatim>\<open>DAY_RE\<close> matches at a position\<close>
  "DAY_RE_at prev s =
     [word. word_boundary prev s, (day_name, day_num) \<leftarrow> DAYS_OF_WEEK,
           (word, r) \<leftarrow> re_lit_ic day_name s, word_boundary (Some (last word)) r]"

definition EXCEPT_RE_at :: "string \<Rightarrow> string list" where
  \<comment> \<open>\<^verbatim>\<open>EXCEPT\s+\w+\<close>: the text after each way it matches at the start\<close>
  "EXCEPT_RE_at s =
     [r3. r1 \<leftarrow> re_lit ''EXCEPT'' s, r2 \<leftarrow> re_many is_space 1 r1, r3 \<leftarrow> re_many is_word 1 r2]"

text \<open>
  \<^verbatim>\<open>DAY_RE.findall(text)\<close>: the matches from left to right, each search resuming where
  the last match ended. \<open>prev\<close> is the character before the current position.
\<close>

function DAY_RE_findall_from :: "char option \<Rightarrow> string \<Rightarrow> string list" where
  "DAY_RE_findall_from prev s =
     (case DAY_RE_at prev s of
        word # _ \<Rightarrow> word # DAY_RE_findall_from (Some (last word)) (drop (length word) s)
      | [] \<Rightarrow> (case s of [] \<Rightarrow> [] | c # cs \<Rightarrow> DAY_RE_findall_from (Some c) cs))"
  by pat_completeness auto
termination
proof (relation "measure (\<lambda>(prev, s). length s)")
  fix prev s word others
  assume "DAY_RE_at prev s = word # others"
  then have "word \<in> set (DAY_RE_at prev s)"
    by simp
  then obtain day_name day_num r where day: "(day_name, day_num) \<in> set DAYS_OF_WEEK"
    and lit: "(word, r) \<in> set (re_lit_ic day_name s)"
    by (auto simp: DAY_RE_at_def)
  from day have "day_name \<noteq> []"
    by (auto simp: DAYS_OF_WEEK_def)
  moreover from lit have "length word = length day_name" "length day_name \<le> length s"
    by (auto simp: re_lit_ic_def split: if_splits)
  ultimately have "word \<noteq> [] \<and> length word \<le> length s"
    by auto
  then show "((Some (last word), drop (length word) s), (prev, s))
               \<in> measure (\<lambda>(prev, s). length s)"
    by (cases word) auto
qed auto

declare DAY_RE_findall_from.simps [simp del]

definition DAY_RE_findall :: "string \<Rightarrow> string list" where
  "DAY_RE_findall s = DAY_RE_findall_from None s"

text \<open>\<^verbatim>\<open>re.sub(r"EXCEPT\s+\w+", "", text)\<close>: every match is deleted, the rest is copied.\<close>

function EXCEPT_RE_sub :: "string \<Rightarrow> string" where
  "EXCEPT_RE_sub s =
     (case EXCEPT_RE_at s of
        r # _ \<Rightarrow> EXCEPT_RE_sub r
      | [] \<Rightarrow> (case s of [] \<Rightarrow> [] | c # cs \<Rightarrow> c # EXCEPT_RE_sub cs))"
  by pat_completeness auto
termination
proof (relation "measure length")
  fix s r others
  assume "EXCEPT_RE_at s = r # others"
  then have "r \<in> set (EXCEPT_RE_at s)"
    by simp
  then obtain r1 r2 where parts: "r1 \<in> set (re_lit ''EXCEPT'' s)" "r2 \<in> set (re_many is_space 1 r1)"
    "r \<in> set (re_many is_word 1 r2)"
    by (auto simp: EXCEPT_RE_at_def)
  have many: "length b + k \<le> length a" if "b \<in> set (re_many cls k a)" for cls k a b
  proof -
    from that obtain x where "b = drop x a" "k \<le> x" "x \<le> length (takeWhile cls a)"
      by (auto simp: re_many_def)
    moreover have "length (takeWhile cls a) \<le> length a"
      by (rule length_takeWhile_le)
    ultimately show ?thesis
      by simp
  qed
  from parts have "length r1 \<le> length s"
    by (auto simp: re_lit_def split: if_splits)
  moreover from parts have "length r2 + 1 \<le> length r1" "length r + 1 \<le> length r2"
    by (auto dest: many)
  ultimately show "(r, s) \<in> measure length"
    by simp
qed auto

declare EXCEPT_RE_sub.simps [simp del]

subsection \<open>\<^verbatim>\<open>_parse_time\<close>\<close>

text \<open>
  The two-target assignment \<^verbatim>\<open>h, m = t.split(":")\<close> raises \<^verbatim>\<open>ValueError\<close> unless the
  split has exactly two parts.
\<close>

definition parse_time :: "string \<Rightarrow> exn + (int \<times> int)" where
  "parse_time t0 =
     (let t = strip (upper t0);
          is_pm = endswith t ''PM'';
          t = str_remove ''PM'' (str_remove ''AM'' t)
      in case (if CHR '':'' \<in> set t
               then (case split_on CHR '':'' t of
                       [h, m] \<Rightarrow> Inr (h, m)
                     | _ \<Rightarrow> Inl ValueError)
               else Inr (t, ''0'')) of
           Inl e \<Rightarrow> Inl e
         | Inr (hs, ms) \<Rightarrow>
             (case py_int hs of
                Inl e \<Rightarrow> Inl e
              | Inr h \<Rightarrow>
                  (case py_int ms of
                     Inl e \<Rightarrow> Inl e
                   | Inr m \<Rightarrow>
                       (let h = (if is_pm \<and> h \<noteq> 12 then h + 12 else h);
                            h = (if \<not> is_pm \<and> h = 12 then 0 else h)
                        in Inr (h, m)))))"

subsection \<open>\<^verbatim>\<open>parse_sign_description\<close>\<close>

definition MARKER :: string where
  "MARKER = ''SANITATION BROOM SYMBOL''"

definition except_days_of :: "string \<Rightarrow> int set" where
  \<comment> \<open>the loop over \<^verbatim>\<open>DAYS_OF_WEEK.items()\<close> that fills \<^verbatim>\<open>except_days\<close>\<close>
  "except_days_of upper_desc =
     set [day_num. (day_name, day_num) \<leftarrow> DAYS_OF_WEEK,
                   str_in (''EXCEPT '' @ day_name) upper_desc]"

fun lookup_days :: "string list \<Rightarrow> exn + int list" where
  \<comment> \<open>\<^verbatim>\<open>DAYS_OF_WEEK[d.upper()] for d in day_matches\<close>; a missing key raises\<close>
  "lookup_days [] = Inr []"
| "lookup_days (d # ds) =
     (case map_of DAYS_OF_WEEK (upper d) of
        None \<Rightarrow> Inl KeyError
      | Some day_num \<Rightarrow>
          (case lookup_days ds of Inl e \<Rightarrow> Inl e | Inr nums \<Rightarrow> Inr (day_num # nums)))"

text \<open>
  The result is \<open>Inl\<close> for an exception that leaves the function, \<open>Inr None\<close> for each
  \<^verbatim>\<open>return None\<close> and \<open>Inr (Some schedule)\<close> for the schedule. \<^verbatim>\<open>sorted\<close> of a set of
  integers is \<open>sorted_list_of_set\<close>.
\<close>

definition parse_sign_description :: "string \<Rightarrow> exn + CleaningSchedule option" where
  "parse_sign_description desc =
     (if \<not> str_in MARKER (upper desc) then Inr None
      else
        let upper_desc = upper desc;
            except_days = except_days_of upper_desc;
            cleaned = EXCEPT_RE_sub upper_desc;
            day_matches = DAY_RE_findall cleaned
        in if day_matches = [] \<and> except_days = {} then Inr None
           else
             case (if day_matches \<noteq> []
                   then (case lookup_days day_matches of
                           Inl e \<Rightarrow> Inl e
                         | Inr nums \<Rightarrow> Inr (sorted_list_of_set (set nums - except_days)))
                   else Inr (sorted_list_of_set (set [0, 1, 2, 3, 4, 5, 6] - except_days))) of
               Inl e \<Rightarrow> Inl e
             | Inr days_list \<Rightarrow>
                 (case TIME_RE_search desc of
                    None \<Rightarrow> Inr None
                  | Some (group1, group2) \<Rightarrow>
                      (case parse_time group1 of
                         Inl e \<Rightarrow> Inl e
                       | Inr (start_h, start_m) \<Rightarrow>
                           (case parse_time group2 of
                              Inl e \<Rightarrow> Inl e
                            | Inr (end_h, end_m) \<Rightarrow>
                                Inr (Some \<lparr>days = days_list,
                                           start_hour = start_h, start_minute = start_m,
                                           end_hour = end_h, end_minute = end_m\<rparr>)))))"

section \<open>Notions used to state the properties\<close>

text \<open>
  The ranges the data model of the specification gives a schedule: every active day is a
  weekday number, the window starts at a time of day and ends after it starts.
\<close>

definition valid_days :: "CleaningSchedule \<Rightarrow> bool" where
  "valid_days schedule \<longleftrightarrow> list_all (\<lambda>d. 0 \<le> d \<and> d \<le> 6) (days schedule)"

definition window_in_day :: "CleaningSchedule \<Rightarrow> bool" where
  "window_in_day schedule \<longleftrightarrow>
     0 \<le> start_hour schedule \<and> start_hour schedule \<le> 23 \<and>
     0 \<le> start_minute schedule \<and> start_minute schedule \<le> 59 \<and>
     start_minutes_of schedule < end_minutes_of schedule"

definition valid_window :: "CleaningSchedule \<Rightarrow> bool" where
  "valid_window schedule \<longleftrightarrow>
     0 \<le> start_hour schedule \<and> start_hour schedule \<le> 23 \<and>
     0 \<le> start_minute schedule \<and> start_minute schedule \<le> 59 \<and>
     0 \<le> end_hour schedule \<and> end_hour schedule \<le> 23 \<and>
     0 \<le> end_minute schedule \<and> end_minute schedule \<le> 59 \<and>
     start_minutes_of schedule < end_minutes_of schedule"

text \<open>A result in the half-open interval from 0 to 168 hours.\<close>

definition within_week :: "pyfloat \<Rightarrow> bool" where
  "within_week r = (case r of Finite h \<Rightarrow> 0 \<le> h \<and> h < 168 | Infinity \<Rightarrow> False)"

text \<open>
  The 12-hour rule in the words of the specification: 12 AM is hour 0, 12 PM stays 12,
  any other PM hour has 12 added, an AM hour passes through.
\<close>

definition twelve_hour :: "bool \<Rightarrow> int \<Rightarrow> int" where
  "twelve_hour is_pm h =
     (if \<not> is_pm \<and> h = 12 then 0
      else if is_pm \<and> h = 12 then 12
      else if is_pm then h + 12
      else h)"

text \<open>
  A time token \<^verbatim>\<open>H[:MM](AM|PM)\<close> put together from its hour digits, its minute digits
  (empty when the token has no minutes) and its AM/PM marker in any letter case.
\<close>

definition time_token :: "string \<Rightarrow> string \<Rightarrow> string \<Rightarrow> string" where
  "time_token hh mm ap = hh @ (if mm = [] then [] else CHR '':'' # mm) @ ap"

definition token_parts :: "string \<Rightarrow> string \<Rightarrow> string \<Rightarrow> bool" where
  "token_parts hh mm ap \<longleftrightarrow>
     (length hh = 1 \<or> length hh = 2) \<and> list_all is_digit hh \<and>
     (mm = [] \<or> length mm = 2 \<and> list_all is_digit mm) \<and>
     (upper ap = ''AM'' \<or> upper ap = ''PM'')"

text \<open>
  The intermediate values of \<^verbatim>\<open>parse_sign_description\<close>: the matches of \<^verbatim>\<open>DAY_RE\<close> in the
  text without its exception clauses, the weekday numbers they name, and the days the
  two branches of the day resolution produce.
\<close>

definition day_numbers :: "string list \<Rightarrow> int set" where
  "day_numbers day_matches =
     set [day_num. d \<leftarrow> day_matches, (day_name, day_num) \<leftarrow> DAYS_OF_WEEK, day_name = upper d]"

definition day_matches_of :: "string \<Rightarrow> string list" where
  "day_matches_of desc = DAY_RE_findall (EXCEPT_RE_sub (upper desc))"

definition explicit_days_of :: "string \<Rightarrow> int set" where
  "explicit_days_of desc = day_numbers (day_matches_of desc)"

definition resolved_days :: "string \<Rightarrow> int set" where
  "resolved_days desc =
     (if explicit_days_of desc \<noteq> {} then explicit_days_of desc else {0, 1, 2, 3, 4, 5, 6})
       - except_days_of (upper desc)"

definition has_time_range :: "string \<Rightarrow> bool" where
  "has_time_range desc \<longleftrightarrow> TIME_RE_search desc \<noteq> None"

text \<open>
  A weekday name occurs as a whole word at position \<open>k\<close> of a text when the text reads
  the name there, in any letter case, with no word character just before it and none
  just after it. \<open>named_weekdays\<close> collects the numbers of the weekdays that occur so
  somewhere in the text.
\<close>

definition whole_word_at :: "string \<Rightarrow> nat \<Rightarrow> string \<Rightarrow> bool" where
  "whole_word_at text k name \<longleftrightarrow>
     k + length name \<le> length text \<and>
     upper (take (length name) (drop k text)) = name \<and>
     (k = 0 \<or> \<not> is_word (text ! (k - 1))) \<and>
     (k + length name = length text \<or> \<not> is_word (text ! (k + length name)))"

definition occurs_whole_word :: "string \<Rightarrow> string \<Rightarrow> bool" where
  "occurs_whole_word text name \<longleftrightarrow>
     list_ex (\<lambda>k. whole_word_at text k name) [0 ..< Suc (length text)]"

definition named_weekdays :: "string \<Rightarrow> int set" where
  "named_weekdays text =
     set [day_num. (day_name, day_num) \<leftarrow> DAYS_OF_WEEK, occurs_whole_word text day_name]"

text \<open>
  For the proofs about \<^verbatim>\<open>findall\<close>: whether the character before a position is a word
  character, the character before position \<open>k\<close> of a text that follows \<open>prev\<close>, and the
  matches of \<^verbatim>\<open>DAY_RE\<close> at any position of such a text.
\<close>

definition prev_word :: "char option \<Rightarrow> bool" where
  "prev_word prev = (case prev of None \<Rightarrow> False | Some p \<Rightarrow> is_word p)"

definition char_before :: "char option \<Rightarrow> string \<Rightarrow> nat \<Rightarrow> char option" where
  "char_before prev s k = (if k = 0 then prev else Some (s ! (k - 1)))"

definition occurs :: "char option \<Rightarrow> string \<Rightarrow> string \<Rightarrow> bool" where
  "occurs prev s w \<longleftrightarrow>
     (\<exists>k\<le>length s. w \<in> set (DAY_RE_at (char_before prev s k) (drop k s)))"

section \<open>Auxiliary facts\<close>

subsection \<open>The calculator\<close>

lemma weekday_cases:
  "0 \<le> (w::int) \<Longrightarrow> w \<le> 6 \<Longrightarrow> w = 0 \<or> w = 1 \<or> w = 2 \<or> w = 3 \<or> w = 4 \<or> w = 5 \<or> w = 6"
  by arith

lemma hours_unfold:
  "hours_until_next_cleaning schedule now =
     offsets_loop schedule (weekday now) (current_minutes_of now)
       (start_minutes_of schedule) (end_minutes_of schedule) [0, 1, 2, 3, 4, 5, 6, 7]"
  by (simp add: hours_until_next_cleaning_def range8_def)

lemma within_week_minutes:
  "within_week (Finite (of_int x / 60)) \<longleftrightarrow> 0 \<le> x \<and> x < 10080"
  by (simp add: within_week_def field_simps)

lemma some_offset_hits:
  assumes "0 \<le> (d::int)" and "d \<le> 6"
  shows "\<exists>k. (k = 1 \<or> k = 2 \<or> k = 3 \<or> k = 4 \<or> k = 5 \<or> k = 6 \<or> k = 7) \<and> (w + k) mod 7 = d"
proof -
  from assms have "\<exists>k. 1 \<le> k \<and> k \<le> 7 \<and> (w + k) mod 7 = d"
    by presburger
  then obtain k where "1 \<le> k" "k \<le> 7" "(w + k) mod 7 = d"
    by blast
  moreover from this have "k = 1 \<or> k = 2 \<or> k = 3 \<or> k = 4 \<or> k = 5 \<or> k = 6 \<or> k = 7"
    by arith
  ultimately show ?thesis
    by blast
qed

subsection \<open>Characters and strings\<close>

lemma str_in_iff: "str_in sub s \<longleftrightarrow> (\<exists>pre post. s = pre @ sub @ post)"
proof (induction s)
  case Nil
  then show ?case
    by auto
next
  case (Cons c cs)
  show ?case
  proof
    assume "str_in sub (c # cs)"
    then consider "prefix sub (c # cs)" | "str_in sub cs"
      by auto
    then show "\<exists>pre post. c # cs = pre @ sub @ post"
    proof cases
      case 1
      then obtain post where "c # cs = [] @ sub @ post"
        by (auto simp: prefix_def)
      then show ?thesis
        by blast
    next
      case 2
      with Cons obtain pre post where "cs = pre @ sub @ post"
        by blast
      then have "c # cs = (c # pre) @ sub @ post"
        by simp
      then show ?thesis
        by blast
    qed
  next
    assume "\<exists>pre post. c # cs = pre @ sub @ post"
    then obtain pre post where eq: "c # cs = pre @ sub @ post"
      by blast
    show "str_in sub (c # cs)"
    proof (cases pre)
      case Nil
      with eq have "prefix sub (c # cs)"
        by (simp add: prefix_def)
      then show ?thesis
        by simp
    next
      case (Cons p ps)
      with eq have "cs = ps @ sub @ post"
        by simp
      with Cons.IH have "str_in sub cs"
        by blast
      then show ?thesis
        by simp
    qed
  qed
qed

lemma py_int_decimal: "s \<noteq> [] \<Longrightarrow> list_all is_digit s \<Longrightarrow> py_int s = Inr (decimal s)"
  by (simp add: py_int_def)

lemma digit_cases:
  "is_digit c \<Longrightarrow>
     c = CHR ''0'' \<or> c = CHR ''1'' \<or> c = CHR ''2'' \<or> c = CHR ''3'' \<or> c = CHR ''4'' \<or>
     c = CHR ''5'' \<or> c = CHR ''6'' \<or> c = CHR ''7'' \<or> c = CHR ''8'' \<or> c = CHR ''9''"
  by (simp add: is_digit_def)

lemma digit_upper: "is_digit c \<Longrightarrow> upper_char c = c"
  by (drule digit_cases) (elim disjE; simp add: upper_char_def)

lemma digit_not_space: "is_digit c \<Longrightarrow> \<not> is_space c"
  by (drule digit_cases) (elim disjE; simp add: is_space_def)

lemma digit_not_letter:
  "is_digit c \<Longrightarrow> c \<noteq> CHR ''A'' \<and> c \<noteq> CHR ''M'' \<and> c \<noteq> CHR ''P'' \<and> c \<noteq> CHR '':''"
  by (drule digit_cases) (elim disjE; simp)

lemma digit_value_range: "is_digit c \<Longrightarrow> 0 \<le> digit_value c \<and> digit_value c \<le> 9"
  by (drule digit_cases) (elim disjE; simp add: digit_value_def)

lemma decimal_range:
  assumes "length s = 1 \<or> length s = 2" and "list_all is_digit s"
  shows "0 \<le> decimal s \<and> decimal s \<le> 99"
proof -
  from assms(1) consider a where "s = [a]" | a b where "s = [a, b]"
    by (cases s; cases "tl s"; cases "tl (tl s)") auto
  then show ?thesis
  proof cases
    case 1
    with assms(2) digit_value_range [of a] show ?thesis
      by (simp add: decimal_def)
  next
    case 2
    with assms(2) digit_value_range [of a] digit_value_range [of b] show ?thesis
      by (simp add: decimal_def)
  qed
qed

lemma upper_digits: "list_all is_digit s \<Longrightarrow> upper s = s"
  by (induction s) (auto simp: upper_def digit_upper)

lemma upper_append: "upper (xs @ ys) = upper xs @ upper ys"
  by (simp add: upper_def)

lemma strip_id: "s \<noteq> [] \<Longrightarrow> \<not> is_space (hd s) \<Longrightarrow> \<not> is_space (last s) \<Longrightarrow> strip s = s"
proof -
  assume a: "s \<noteq> []" "\<not> is_space (hd s)" "\<not> is_space (last s)"
  then have "dropWhile is_space s = s"
    by (cases s) auto
  moreover from a have "dropWhile is_space (rev s) = rev s"
    by (cases "rev s") (auto simp: last_rev hd_rev)
  ultimately show ?thesis
    by (simp add: strip_def)
qed

lemma str_remove_skip:
  "a \<notin> set body \<Longrightarrow> str_remove (a # old) (body @ rest) = body @ str_remove (a # old) rest"
  by (induction body) auto

lemma split_on_none: "sep \<notin> set s \<Longrightarrow> split_on sep s = [s]"
  by (induction s) auto

lemma split_on_one:
  "sep \<notin> set xs \<Longrightarrow> sep \<notin> set ys \<Longrightarrow> split_on sep (xs @ sep # ys) = [xs, ys]"
  by (induction xs) (auto simp: split_on_none)

lemma digits_free:
  assumes "list_all is_digit s"
  shows "CHR ''A'' \<notin> set s" "CHR ''P'' \<notin> set s" "CHR '':'' \<notin> set s"
  using assms by (auto simp: list_all_iff dest: digit_not_letter)

subsection \<open>Time tokens\<close>

lemma parse_time_token:
  assumes "token_parts hh mm ap"
  shows "parse_time (time_token hh mm ap) =
           Inr (twelve_hour (upper ap = ''PM'') (decimal hh), if mm = [] then 0 else decimal mm)"
proof -
  define body where "body = hh @ (if mm = [] then [] else CHR '':'' # mm)"
  from assms have hh: "hh \<noteq> []" "list_all is_digit hh"
    and mm: "list_all is_digit mm" "mm \<noteq> [] \<Longrightarrow> mm \<noteq> []"
    and ap: "upper ap = ''AM'' \<or> upper ap = ''PM''"
    by (auto simp: token_parts_def)
  have up: "upper (time_token hh mm ap) = body @ upper ap"
    using hh mm by (simp add: time_token_def body_def upper_append upper_digits)
      (simp add: upper_def upper_char_def upper_digits [unfolded upper_def])
  have body_free: "CHR ''A'' \<notin> set body" "CHR ''P'' \<notin> set body"
    using digits_free [OF hh(2)] digits_free [OF mm(1)] by (auto simp: body_def)
  have "is_digit (hd hh)"
    using hh by (cases hh) auto
  then have hd: "\<not> is_space (hd (body @ upper ap))"
    using hh by (simp add: body_def digit_not_space)
  have last: "\<not> is_space (last (body @ upper ap))"
    using ap by (auto simp: is_space_def)
  have strip: "strip (body @ upper ap) = body @ upper ap"
    using hd last ap by (intro strip_id) auto
  have pm: "endswith (body @ upper ap) ''PM'' \<longleftrightarrow> upper ap = ''PM''"
    using ap by (auto simp: endswith_def suffix_def)
  have removed: "str_remove ''PM'' (str_remove ''AM'' (body @ upper ap)) = body"
    using ap body_free by (auto simp: str_remove_skip)
  have pieces: "(if CHR '':'' \<in> set body
                 then (case split_on CHR '':'' body of [h, m] \<Rightarrow> Inr (h, m) | _ \<Rightarrow> Inl ValueError)
                 else Inr (body, ''0'')) = Inr (hh, if mm = [] then ''0'' else mm)"
    using digits_free [OF hh(2)] digits_free [OF mm(1)]
    by (auto simp: body_def split_on_one)
  have zero: "py_int ''0'' = Inr 0"
    by (simp add: py_int_def decimal_def is_digit_def digit_value_def)
  have ints: "py_int hh = Inr (decimal hh)" "mm \<noteq> [] \<Longrightarrow> py_int mm = Inr (decimal mm)"
    using hh mm by (simp_all add: py_int_decimal)
  show ?thesis
    unfolding parse_time_def Let_def up strip removed pm pieces
    by (simp add: ints zero twelve_hour_def)
qed

lemma token_range:
  assumes "token_parts hh mm ap"
  shows "0 \<le> twelve_hour (upper ap = ''PM'') (decimal hh) \<and>
         twelve_hour (upper ap = ''PM'') (decimal hh) \<le> 111 \<and>
         0 \<le> (if mm = [] then 0 else decimal mm) \<and> (if mm = [] then 0 else decimal mm) \<le> 99"
proof -
  from assms have "0 \<le> decimal hh \<and> decimal hh \<le> 99"
    by (intro decimal_range) (auto simp: token_parts_def)
  moreover from assms have "mm \<noteq> [] \<Longrightarrow> 0 \<le> decimal mm \<and> decimal mm \<le> 99"
    by (intro decimal_range) (auto simp: token_parts_def)
  ultimately show ?thesis
    by (auto simp: twelve_hour_def)
qed

subsection \<open>What the regular expressions match\<close>

lemma re_digits12_shape:
  "(h, r) \<in> set (re_digits12 s) \<Longrightarrow> (length h = 1 \<or> length h = 2) \<and> list_all is_digit h"
proof -
  assume "(h, r) \<in> set (re_digits12 s)"
  then obtain k where k: "h = take k s" "1 \<le> k" "k \<le> 2" "k \<le> length (takeWhile is_digit s)"
    by (auto simp: re_digits12_def)
  have le: "length (takeWhile is_digit s) \<le> length s"
    by (rule length_takeWhile_le)
  have "take k s = take k (takeWhile is_digit s)"
    using k(4) by (metis takeWhile_dropWhile_id take_append take_all_iff append_Nil2
        diff_is_0_eq take_0)
  then have "set h \<subseteq> set (takeWhile is_digit s)"
    using k(1) by (metis set_take_subset)
  then have "list_all is_digit h"
    by (auto simp: list_all_iff dest: set_takeWhileD)
  moreover have "length h = k"
    using k le by simp
  ultimately show ?thesis
    using k by auto
qed

lemma re_opt_minutes_shape:
  "(m, r) \<in> set (re_opt_minutes s) \<Longrightarrow>
     m = [] \<or> (\<exists>mm. m = CHR '':'' # mm \<and> length mm = 2 \<and> list_all is_digit mm)"
  by (auto simp: re_opt_minutes_def re_lit_def split: if_splits)

lemma re_ampm_shape: "(ap, r) \<in> set (re_ampm s) \<Longrightarrow> upper ap = ''AM'' \<or> upper ap = ''PM''"
  by (auto simp: re_ampm_def re_lit_ic_def split: if_splits)

lemma re_time_token_shape:
  assumes "(g, r) \<in> set (re_time_token s)"
  shows "\<exists>hh mm ap. token_parts hh mm ap \<and> g = time_token hh mm ap"
proof -
  from assms obtain h r1 m r2 ap where g: "g = h @ m @ ap"
    and h: "(h, r1) \<in> set (re_digits12 s)" and m: "(m, r2) \<in> set (re_opt_minutes r1)"
    and ap: "(ap, r) \<in> set (re_ampm r2)"
    by (auto simp: re_time_token_def)
  from re_opt_minutes_shape [OF m] show ?thesis
  proof
    assume "m = []"
    with g re_digits12_shape [OF h] re_ampm_shape [OF ap]
    have "token_parts h [] ap \<and> g = time_token h [] ap"
      by (simp add: token_parts_def time_token_def)
    then show ?thesis
      by blast
  next
    assume "\<exists>mm. m = CHR '':'' # mm \<and> length mm = 2 \<and> list_all is_digit mm"
    then obtain mm where "m = CHR '':'' # mm" "length mm = 2" "list_all is_digit mm"
      by blast
    with g re_digits12_shape [OF h] re_ampm_shape [OF ap]
    have "token_parts h mm ap \<and> g = time_token h mm ap"
      by (auto simp: token_parts_def time_token_def)
    then show ?thesis
      by blast
  qed
qed

lemma TIME_RE_search_at:
  "TIME_RE_search s = Some m \<Longrightarrow> \<exists>k. m \<in> set (TIME_RE_at (drop k s))"
proof (induction s)
  case Nil
  then show ?case
    by (auto split: list.splits)
next
  case (Cons c cs)
  show ?case
  proof (cases "TIME_RE_at (c # cs)")
    case Nil
    with Cons obtain k where "m \<in> set (TIME_RE_at (drop k cs))"
      by auto
    then have "m \<in> set (TIME_RE_at (drop (Suc k) (c # cs)))"
      by simp
    then show ?thesis
      by blast
  next
    case (Cons m' ms)
    with Cons.prems have "m \<in> set (TIME_RE_at (drop 0 (c # cs)))"
      by auto
    then show ?thesis
      by blast
  qed
qed

lemma TIME_RE_groups:
  assumes "TIME_RE_search s = Some (g1, g2)"
  shows "(\<exists>hh mm ap. token_parts hh mm ap \<and> g1 = time_token hh mm ap) \<and>
         (\<exists>hh mm ap. token_parts hh mm ap \<and> g2 = time_token hh mm ap)"
proof -
  from TIME_RE_search_at [OF assms] obtain k where "(g1, g2) \<in> set (TIME_RE_at (drop k s))"
    by blast
  then obtain r1 r4 r5 where "(g1, r1) \<in> set (re_time_token (drop k s))"
    "(g2, r5) \<in> set (re_time_token r4)"
    by (auto simp: TIME_RE_at_def)
  then show ?thesis
    by (blast dest: re_time_token_shape)
qed

lemma DAYS_OF_WEEK_cases:
  "(day_name, day_num) \<in> set DAYS_OF_WEEK \<Longrightarrow>
     (day_name, day_num) = (''MONDAY'', 0) \<or> (day_name, day_num) = (''TUESDAY'', 1) \<or>
     (day_name, day_num) = (''WEDNESDAY'', 2) \<or> (day_name, day_num) = (''THURSDAY'', 3) \<or>
     (day_name, day_num) = (''FRIDAY'', 4) \<or> (day_name, day_num) = (''SATURDAY'', 5) \<or>
     (day_name, day_num) = (''SUNDAY'', 6)"
  unfolding DAYS_OF_WEEK_def by (simp only: set_simps insert_iff empty_iff simp_thms)

lemma DAYS_OF_WEEK_lookup:
  "(day_name, day_num) \<in> set DAYS_OF_WEEK \<Longrightarrow>
     map_of DAYS_OF_WEEK day_name = Some day_num \<and> 0 \<le> day_num \<and> day_num \<le> 6"
  by (drule DAYS_OF_WEEK_cases) (elim disjE; simp add: DAYS_OF_WEEK_def)

lemma DAY_RE_at_name:
  "word \<in> set (DAY_RE_at prev s) \<Longrightarrow> \<exists>day_num. (upper word, day_num) \<in> set DAYS_OF_WEEK"
  by (auto simp: DAY_RE_at_def re_lit_ic_def split: if_splits)

lemma DAY_RE_findall_from_names:
  "word \<in> set (DAY_RE_findall_from prev s) \<Longrightarrow> \<exists>day_num. (upper word, day_num) \<in> set DAYS_OF_WEEK"
proof (induction prev s rule: DAY_RE_findall_from.induct)
  case (1 prev s)
  show ?case
  proof (cases "DAY_RE_at prev s")
    case Nil
    show ?thesis
    proof (cases s)
      case Nil
      with \<open>DAY_RE_at prev s = []\<close> "1.prems" show ?thesis
        by (subst (asm) DAY_RE_findall_from.simps) simp
    next
      case (Cons c cs)
      with \<open>DAY_RE_at prev s = []\<close> "1.prems" have "word \<in> set (DAY_RE_findall_from (Some c) cs)"
        by (subst (asm) DAY_RE_findall_from.simps) simp
      with "1.IH"(1) \<open>DAY_RE_at prev s = []\<close> Cons show ?thesis
        by blast
    qed
  next
    case (Cons first others)
    with "1.prems" have "word = first \<or>
        word \<in> set (DAY_RE_findall_from (Some (last first)) (drop (length first) s))"
      by (subst (asm) DAY_RE_findall_from.simps) simp
    then show ?thesis
    proof
      assume "word = first"
      with Cons have "word \<in> set (DAY_RE_at prev s)"
        by simp
      then show ?thesis
        by (rule DAY_RE_at_name)
    next
      assume "word \<in> set (DAY_RE_findall_from (Some (last first)) (drop (length first) s))"
      with "1.IH"(2) Cons show ?thesis
        by blast
    qed
  qed
qed

subsection \<open>\<^verbatim>\<open>findall\<close> finds every whole-word weekday name\<close>

lemma is_word_upper: "is_word (upper_char c) = is_word c"
proof (cases "map_of (zip ''abcdefghijklmnopqrstuvwxyz'' ''ABCDEFGHIJKLMNOPQRSTUVWXYZ'') c")
  case None
  then show ?thesis
    by (simp add: upper_char_def)
next
  case (Some u)
  then have "(c, u) \<in> set (zip ''abcdefghijklmnopqrstuvwxyz'' ''ABCDEFGHIJKLMNOPQRSTUVWXYZ'')"
    by (rule map_of_SomeD)
  then have "is_word c \<and> is_word u"
    by (auto simp: is_word_def)
  with Some show ?thesis
    by (simp add: upper_char_def)
qed

lemma day_name_letters:
  "(day_name, day_num) \<in> set DAYS_OF_WEEK \<Longrightarrow> list_all is_word day_name \<and> 2 \<le> length day_name"
  by (drule DAYS_OF_WEEK_cases) (elim disjE; simp add: is_word_def)

lemma day_name_key:
  assumes "(n1, k1) \<in> set DAYS_OF_WEEK" and "(n2, k2) \<in> set DAYS_OF_WEEK"
    and "take 2 n1 = take 2 n2"
  shows "n1 = n2 \<and> k1 = k2"
  using DAYS_OF_WEEK_cases [OF assms(1)] DAYS_OF_WEEK_cases [OF assms(2)] assms(3)
  by (elim disjE) simp_all

lemma upper_take: "upper (take n s) = take n (upper s)"
  by (simp add: upper_def take_map)

lemma list_all_is_word_upper: "list_all is_word (upper s) = list_all is_word s"
  by (induction s) (simp_all add: upper_def is_word_upper)

lemma DAY_RE_at_iff:
  "word \<in> set (DAY_RE_at prev s) \<longleftrightarrow>
     (\<exists>day_name day_num. (day_name, day_num) \<in> set DAYS_OF_WEEK \<and>
        length day_name \<le> length s \<and> upper (take (length day_name) s) = day_name \<and>
        word = take (length day_name) s \<and> \<not> prev_word prev \<and>
        (length day_name = length s \<or> \<not> is_word (s ! length day_name)))"
  (is "?lhs \<longleftrightarrow> ?rhs")
proof -
  have boundaries: "word_boundary prev s \<and> word_boundary (Some (last (take n s))) (drop n s) \<longleftrightarrow>
      \<not> prev_word prev \<and> (n = length s \<or> \<not> is_word (s ! n))"
    if name: "(day_name, day_num) \<in> set DAYS_OF_WEEK" and n: "n = length day_name"
      and len: "n \<le> length s" and up: "upper (take n s) = day_name"
    for day_name day_num n
  proof -
    from day_name_letters [OF name] up n have "list_all is_word (upper (take n s))" "2 \<le> n"
      by simp_all
    then have letters: "list_all is_word (take n s)" "2 \<le> n"
      by (simp_all only: list_all_is_word_upper)
    with len obtain c cs where s: "s = c # cs"
      by (cases s) auto
    with letters have first: "is_word c"
      by (cases n) auto
    from letters len have "take n s \<noteq> []"
      by auto
    with letters(1) have last: "is_word (last (take n s))"
      by (metis last_in_set list_all_iff)
    have rest: "(case drop n s of [] \<Rightarrow> False | c # _ \<Rightarrow> is_word c) \<longleftrightarrow>
        n \<noteq> length s \<and> is_word (s ! n)"
    proof (cases "n = length s")
      case True
      then show ?thesis
        by simp
    next
      case False
      with len have "n < length s"
        by simp
      then have "drop n s = s ! n # drop (Suc n) s"
        by (rule Cons_nth_drop_Suc [symmetric])
      with False show ?thesis
        by simp
    qed
    show ?thesis
      unfolding word_boundary_def rest
      using first last by (auto simp: s prev_word_def)
  qed
  show ?thesis
  proof
    assume ?lhs
    then obtain day_name day_num where name: "(day_name, day_num) \<in> set DAYS_OF_WEEK"
      and len: "length day_name \<le> length s" and up: "upper (take (length day_name) s) = day_name"
      and word: "word = take (length day_name) s"
      and b: "word_boundary prev s"
        "word_boundary (Some (last (take (length day_name) s))) (drop (length day_name) s)"
      by (auto simp: DAY_RE_at_def re_lit_ic_def split: if_splits)
    from boundaries [OF name refl len up] b name len up word show ?rhs
      by blast
  next
    assume ?rhs
    then obtain day_name day_num where name: "(day_name, day_num) \<in> set DAYS_OF_WEEK"
      and len: "length day_name \<le> length s" and up: "upper (take (length day_name) s) = day_name"
      and word: "word = take (length day_name) s"
      and b: "\<not> prev_word prev" "length day_name = length s \<or> \<not> is_word (s ! length day_name)"
      by blast
    from boundaries [OF name refl len up] b
    have "word_boundary prev s"
      "word_boundary (Some (last (take (length day_name) s))) (drop (length day_name) s)"
      by blast+
    with name len up word show ?lhs
      by (force simp: DAY_RE_at_def re_lit_ic_def)
  qed
qed

lemma DAY_RE_at_unique:
  assumes "w1 \<in> set (DAY_RE_at prev s)" and "w2 \<in> set (DAY_RE_at prev s)"
  shows "w1 = w2"
proof -
  from assms(1) obtain n1 k1 where 1: "(n1, k1) \<in> set DAYS_OF_WEEK"
    "upper (take (length n1) s) = n1" "w1 = take (length n1) s"
    unfolding DAY_RE_at_iff by blast
  from assms(2) obtain n2 k2 where 2: "(n2, k2) \<in> set DAYS_OF_WEEK"
    "upper (take (length n2) s) = n2" "w2 = take (length n2) s"
    unfolding DAY_RE_at_iff by blast
  from day_name_letters [OF 1(1)] have "take 2 n1 = take 2 (upper s)"
    by (subst 1(2) [symmetric]) (simp add: upper_take min_def)
  moreover from day_name_letters [OF 2(1)] have "take 2 n2 = take 2 (upper s)"
    by (subst 2(2) [symmetric]) (simp add: upper_take min_def)
  ultimately have "n1 = n2"
    using day_name_key [OF 1(1) 2(1)] by simp
  with 1(3) 2(3) show ?thesis
    by simp
qed

lemma DAY_RE_at_word:
  assumes "w \<in> set (DAY_RE_at prev s)"
  shows "w = take (length w) s" "2 \<le> length w" "length w \<le> length s" "list_all is_word w"
    "\<not> prev_word prev"
proof -
  from assms obtain day_name day_num where name: "(day_name, day_num) \<in> set DAYS_OF_WEEK"
    and len: "length day_name \<le> length s" and up: "upper (take (length day_name) s) = day_name"
    and w: "w = take (length day_name) s" and b: "\<not> prev_word prev"
    unfolding DAY_RE_at_iff by blast
  from w len have lw: "length w = length day_name"
    by simp
  from day_name_letters [OF name] up w have "list_all is_word (upper w)" "2 \<le> length day_name"
    by simp_all
  then have "list_all is_word w" "2 \<le> length day_name"
    by (simp_all only: list_all_is_word_upper)
  with w len lw b show "w = take (length w) s" "2 \<le> length w" "length w \<le> length s"
    "list_all is_word w" "\<not> prev_word prev"
    by simp_all
qed

lemma occurs_Nil: "\<not> occurs prev [] w"
proof
  assume "occurs prev [] w"
  then have "w \<in> set (DAY_RE_at (char_before prev [] 0) [])"
    by (simp add: occurs_def)
  from DAY_RE_at_word(2) [OF this] DAY_RE_at_word(3) [OF this] show False
    by simp
qed

lemma occurs_skip:
  assumes "DAY_RE_at prev (c # cs) = []"
  shows "occurs prev (c # cs) w \<longleftrightarrow> occurs (Some c) cs w"
proof
  assume "occurs prev (c # cs) w"
  then obtain k where k: "k \<le> length (c # cs)"
    "w \<in> set (DAY_RE_at (char_before prev (c # cs) k) (drop k (c # cs)))"
    by (auto simp: occurs_def)
  with assms obtain j where j: "k = Suc j"
    by (cases k) (auto simp: char_before_def)
  have "char_before prev (c # cs) (Suc j) = char_before (Some c) cs j"
    by (cases j) (simp_all add: char_before_def)
  with k j have "j \<le> length cs" "w \<in> set (DAY_RE_at (char_before (Some c) cs j) (drop j cs))"
    by simp_all
  then show "occurs (Some c) cs w"
    by (auto simp: occurs_def)
next
  assume "occurs (Some c) cs w"
  then obtain j where j: "j \<le> length cs"
    "w \<in> set (DAY_RE_at (char_before (Some c) cs j) (drop j cs))"
    by (auto simp: occurs_def)
  have "char_before prev (c # cs) (Suc j) = char_before (Some c) cs j"
    by (cases j) (simp_all add: char_before_def)
  with j have "Suc j \<le> length (c # cs)"
    "w \<in> set (DAY_RE_at (char_before prev (c # cs) (Suc j)) (drop (Suc j) (c # cs)))"
    by simp_all
  then show "occurs prev (c # cs) w"
    unfolding occurs_def by blast
qed

lemma occurs_hit:
  assumes hit: "DAY_RE_at prev s = first # others"
  shows "occurs prev s w \<longleftrightarrow>
           w = first \<or> occurs (Some (last first)) (drop (length first) s) w"
proof -
  define n where "n = length first"
  from hit have mem: "first \<in> set (DAY_RE_at prev s)"
    by simp
  from DAY_RE_at_word [OF mem] have first: "first = take n s" "2 \<le> n" "n \<le> length s"
    "list_all is_word first"
    by (simp_all add: n_def)
  have inside: "is_word (s ! i)" if "i < n" for i
  proof -
    from that have "take n s ! i = s ! i"
      by (rule nth_take)
    with first(1) have "first ! i = s ! i"
      by simp
    moreover from that have "i < length first"
      by (simp add: n_def)
    ultimately show ?thesis
      using first(4) by (auto simp: list_all_length)
  qed
  have shift: "char_before prev s (n + j) = char_before (Some (last first)) (drop n s) j"
    "drop (n + j) s = drop j (drop n s)" if "n + j \<le> length s" for j
  proof -
    show "drop (n + j) s = drop j (drop n s)"
      by (simp add: add.commute)
    show "char_before prev s (n + j) = char_before (Some (last first)) (drop n s) j"
    proof (cases j)
      case 0
      from first have "first \<noteq> []"
        by auto
      then have "last first = first ! (n - 1)"
        by (simp add: last_conv_nth n_def)
      also from first have "\<dots> = s ! (n - 1)"
        by (metis diff_less nth_take zero_less_numeral less_le_trans zero_less_one)
      finally show ?thesis
        using 0 first(2) by (simp add: char_before_def)
    next
      case (Suc i)
      with that show ?thesis
        by (simp add: char_before_def)
    qed
  qed
  show ?thesis
  proof
    assume "occurs prev s w"
    then obtain k where k: "k \<le> length s"
      "w \<in> set (DAY_RE_at (char_before prev s k) (drop k s))"
      by (auto simp: occurs_def)
    consider "k = 0" | "0 < k" "k < n" | "n \<le> k"
      by linarith
    then show "w = first \<or> occurs (Some (last first)) (drop (length first) s) w"
    proof cases
      case 1
      with k have "w \<in> set (DAY_RE_at prev s)"
        by (simp add: char_before_def)
      then have "w = first"
        using mem by (rule DAY_RE_at_unique)
      then show ?thesis
        by simp
    next
      case 2
      then have "is_word (s ! (k - 1))"
        by (intro inside) simp
      with 2 have "prev_word (char_before prev s k)"
        by (simp add: char_before_def prev_word_def)
      with DAY_RE_at_word(5) [OF k(2)] show ?thesis
        by simp
    next
      case 3
      then obtain j where j: "k = n + j"
        by (metis le_Suc_ex)
      with k shift [of j] have "j \<le> length (drop n s)"
        "w \<in> set (DAY_RE_at (char_before (Some (last first)) (drop n s) j) (drop j (drop n s)))"
        by simp_all
      then have "occurs (Some (last first)) (drop n s) w"
        unfolding occurs_def by blast
      then show ?thesis
        by (simp add: n_def)
    qed
  next
    assume "w = first \<or> occurs (Some (last first)) (drop (length first) s) w"
    then show "occurs prev s w"
    proof
      assume "w = first"
      with mem have "0 \<le> length s" "w \<in> set (DAY_RE_at (char_before prev s 0) (drop 0 s))"
        by (simp_all add: char_before_def)
      then show ?thesis
        unfolding occurs_def by blast
    next
      assume "occurs (Some (last first)) (drop (length first) s) w"
      then obtain j where j: "j \<le> length (drop n s)"
        "w \<in> set (DAY_RE_at (char_before (Some (last first)) (drop n s) j) (drop j (drop n s)))"
        by (auto simp: occurs_def n_def)
      with first(3) have le: "n + j \<le> length s"
        by simp
      with j shift [OF le]
      have "w \<in> set (DAY_RE_at (char_before prev s (n + j)) (drop (n + j) s))"
        by simp
      with le show ?thesis
        unfolding occurs_def by blast
    qed
  qed
qed

lemma DAY_RE_findall_from_occurs:
  "w \<in> set (DAY_RE_findall_from prev s) \<longleftrightarrow> occurs prev s w"
proof (induction prev s rule: DAY_RE_findall_from.induct)
  case (1 prev s)
  show ?case
  proof (cases "DAY_RE_at prev s")
    case Nil
    show ?thesis
    proof (cases s)
      case empty: Nil
      with Nil show ?thesis
        by (subst DAY_RE_findall_from.simps) (simp add: occurs_Nil)
    next
      case (Cons c cs)
      with Nil "1.IH"(1) have "w \<in> set (DAY_RE_findall_from (Some c) cs) \<longleftrightarrow> occurs (Some c) cs w"
        by blast
      with Nil Cons show ?thesis
        by (subst DAY_RE_findall_from.simps) (simp add: occurs_skip)
    qed
  next
    case (Cons first others)
    with "1.IH"(2)
    have "w \<in> set (DAY_RE_findall_from (Some (last first)) (drop (length first) s)) \<longleftrightarrow>
        occurs (Some (last first)) (drop (length first) s) w"
      by blast
    with Cons show ?thesis
      by (subst DAY_RE_findall_from.simps) (simp add: occurs_hit)
  qed
qed

lemma whole_word_at_iff:
  assumes "k \<le> length text" and "(day_name, day_num) \<in> set DAYS_OF_WEEK"
  shows "whole_word_at text k day_name \<longleftrightarrow>
           take (length day_name) (drop k text)
             \<in> set (DAY_RE_at (char_before None text k) (drop k text)) \<and>
           upper (take (length day_name) (drop k text)) = day_name"
    (is "?spec \<longleftrightarrow> ?match \<and> ?name")
proof -
  have before: "prev_word (char_before None text k) \<longleftrightarrow> k \<noteq> 0 \<and> is_word (text ! (k - 1))"
    by (simp add: char_before_def prev_word_def)
  have after: "drop k text ! length day_name = text ! (k + length day_name)"
    using assms(1) by simp
  show ?thesis
  proof
    assume spec: ?spec
    then have "k + length day_name \<le> length text" and name: ?name
      by (simp_all add: whole_word_at_def)
    then have len: "length day_name \<le> length (drop k text)"
      by simp
    from spec have b1: "\<not> prev_word (char_before None text k)"
      unfolding before by (auto simp: whole_word_at_def)
    from spec assms(1)
    have b2: "length day_name = length (drop k text) \<or>
        \<not> is_word (drop k text ! length day_name)"
      unfolding after by (auto simp: whole_word_at_def)
    have "\<exists>name num. (name, num) \<in> set DAYS_OF_WEEK \<and>
        length name \<le> length (drop k text) \<and> upper (take (length name) (drop k text)) = name \<and>
        take (length day_name) (drop k text) = take (length name) (drop k text) \<and>
        \<not> prev_word (char_before None text k) \<and>
        (length name = length (drop k text) \<or> \<not> is_word (drop k text ! length name))"
      using assms(2) len name b1 b2 by (intro exI [of _ day_name] exI [of _ day_num]) simp
    then have ?match
      by (simp only: DAY_RE_at_iff)
    with name show "?match \<and> ?name"
      by simp
  next
    assume m: "?match \<and> ?name"
    then have ?match and name: ?name
      by simp_all
    from \<open>?match\<close> obtain other_name other_num
      where other: "(other_name, other_num) \<in> set DAYS_OF_WEEK"
        "length other_name \<le> length (drop k text)"
        "upper (take (length other_name) (drop k text)) = other_name"
        "take (length day_name) (drop k text) = take (length other_name) (drop k text)"
        "\<not> prev_word (char_before None text k)"
        "length other_name = length (drop k text) \<or>
           \<not> is_word (drop k text ! length other_name)"
      unfolding DAY_RE_at_iff by blast
    have "other_name = upper (take (length other_name) (drop k text))"
      by (rule other(3) [symmetric])
    also have "\<dots> = upper (take (length day_name) (drop k text))"
      by (simp only: other(4))
    also have "\<dots> = day_name"
      by (rule name)
    finally have same: "other_name = day_name" .
    from other(2) assms(1) have "k + length day_name \<le> length text"
      unfolding same by simp
    moreover from other(5) have "k = 0 \<or> \<not> is_word (text ! (k - 1))"
      unfolding before by blast
    moreover from other(6) assms(1) \<open>k + length day_name \<le> length text\<close>
    have "k + length day_name = length text \<or> \<not> is_word (text ! (k + length day_name))"
      unfolding same after by auto
    ultimately show ?spec
      unfolding whole_word_at_def using name by blast
  qed
qed

lemma day_numbers_iff:
  "day_num \<in> day_numbers day_matches \<longleftrightarrow>
     (\<exists>d\<in>set day_matches. (upper d, day_num) \<in> set DAYS_OF_WEEK)"
  by (auto simp: day_numbers_def)

lemma occurs_whole_word_iff:
  "occurs_whole_word text name \<longleftrightarrow> (\<exists>k\<le>length text. whole_word_at text k name)"
proof -
  have "set [0 ..< Suc (length text)] = {k. k \<le> length text}"
    by (simp only: set_upt) auto
  then show ?thesis
    unfolding occurs_whole_word_def list_ex_iff by blast
qed

lemma named_weekdays_iff:
  "day_num \<in> named_weekdays text \<longleftrightarrow>
     (\<exists>day_name k. (day_name, day_num) \<in> set DAYS_OF_WEEK \<and> k \<le> length text \<and>
        whole_word_at text k day_name)"
  unfolding named_weekdays_def by (auto simp: occurs_whole_word_iff)

lemma DAY_RE_findall_named: "day_numbers (DAY_RE_findall text) = named_weekdays text"
proof (intro set_eqI iffI)
  fix day_num
  assume "day_num \<in> day_numbers (DAY_RE_findall text)"
  then obtain d where d: "d \<in> set (DAY_RE_findall text)" "(upper d, day_num) \<in> set DAYS_OF_WEEK"
    unfolding day_numbers_iff by blast
  from d(1) have "occurs None text d"
    by (simp add: DAY_RE_findall_def DAY_RE_findall_from_occurs)
  then obtain k where k: "k \<le> length text"
    "d \<in> set (DAY_RE_at (char_before None text k) (drop k text))"
    by (auto simp: occurs_def)
  from DAY_RE_at_word(1) [OF k(2)] have take: "d = take (length d) (drop k text)" .
  have "length (upper d) = length d"
    by (simp add: upper_def)
  with take k(2) have "take (length (upper d)) (drop k text)
      \<in> set (DAY_RE_at (char_before None text k) (drop k text))"
    "upper (take (length (upper d)) (drop k text)) = upper d"
    by simp_all
  with whole_word_at_iff [OF k(1) d(2)] have "whole_word_at text k (upper d)"
    by blast
  with d(2) k(1) show "day_num \<in> named_weekdays text"
    unfolding named_weekdays_iff by blast
next
  fix day_num
  assume "day_num \<in> named_weekdays text"
  then obtain day_name k where name: "(day_name, day_num) \<in> set DAYS_OF_WEEK"
    and k: "k \<le> length text" and spec: "whole_word_at text k day_name"
    unfolding named_weekdays_iff by blast
  define d where "d = take (length day_name) (drop k text)"
  from whole_word_at_iff [OF k name] spec
  have "d \<in> set (DAY_RE_at (char_before None text k) (drop k text))" "upper d = day_name"
    by (simp_all add: d_def)
  with k have "occurs None text d"
    unfolding occurs_def by blast
  then have "d \<in> set (DAY_RE_findall text)"
    by (simp add: DAY_RE_findall_def DAY_RE_findall_from_occurs)
  with \<open>upper d = day_name\<close> name show "day_num \<in> day_numbers (DAY_RE_findall text)"
    unfolding day_numbers_iff by blast
qed

subsection \<open>The steps of the parser\<close>

lemma lookup_days_total:
  "(\<And>d. d \<in> set ds \<Longrightarrow> \<exists>day_num. (upper d, day_num) \<in> set DAYS_OF_WEEK) \<Longrightarrow>
     \<exists>nums. lookup_days ds = Inr nums \<and> set nums = day_numbers ds \<and>
            (\<forall>n\<in>set nums. 0 \<le> n \<and> n \<le> 6) \<and> (nums = [] \<longleftrightarrow> ds = [])"
proof (induction ds)
  case Nil
  then show ?case
    by (simp add: day_numbers_def)
next
  case (Cons d ds)
  then obtain nums where nums: "lookup_days ds = Inr nums" "set nums = day_numbers ds"
    "\<forall>n\<in>set nums. 0 \<le> n \<and> n \<le> 6"
    by auto
  from Cons.prems obtain day_num where mem: "(upper d, day_num) \<in> set DAYS_OF_WEEK"
    by auto
  from DAYS_OF_WEEK_lookup [OF mem]
  have look: "map_of DAYS_OF_WEEK (upper d) = Some day_num" "0 \<le> day_num" "day_num \<le> 6"
    by simp_all
  have "{k. (upper d, k) \<in> set DAYS_OF_WEEK} = {day_num}"
    using look(1) mem by (auto dest: DAYS_OF_WEEK_lookup)
  then have "day_numbers (d # ds) = insert day_num (day_numbers ds)"
    by (auto simp: day_numbers_def)
  with nums look show ?case
    by simp
qed

lemma day_matches_lookup:
  "\<exists>nums. lookup_days (day_matches_of desc) = Inr nums \<and> set nums = explicit_days_of desc \<and>
          (\<forall>n\<in>set nums. 0 \<le> n \<and> n \<le> 6) \<and> (nums = [] \<longleftrightarrow> day_matches_of desc = [])"
  unfolding explicit_days_of_def
  by (rule lookup_days_total)
    (auto simp: day_matches_of_def DAY_RE_findall_def dest: DAY_RE_findall_from_names)

lemma explicit_days_empty: "explicit_days_of desc = {} \<longleftrightarrow> day_matches_of desc = []"
  using day_matches_lookup [of desc] by (metis set_empty)

lemma explicit_days_range: "n \<in> explicit_days_of desc \<Longrightarrow> 0 \<le> n \<and> n \<le> 6"
  using day_matches_lookup [of desc] by auto

lemma finite_day_numbers: "finite (day_numbers day_matches)"
  unfolding day_numbers_def by (rule finite_set)

lemma finite_resolved_days: "finite (resolved_days desc)"
  by (simp add: resolved_days_def explicit_days_of_def finite_day_numbers)

lemma resolved_days_range: "d \<in> resolved_days desc \<Longrightarrow> 0 \<le> d \<and> d \<le> 6"
  by (auto simp: resolved_days_def dest: explicit_days_range split: if_splits)

lemma parse_with_marker:
  assumes "str_in MARKER (upper desc)"
  shows "parse_sign_description desc =
     (if explicit_days_of desc = {} \<and> except_days_of (upper desc) = {} then Inr None
      else case TIME_RE_search desc of
             None \<Rightarrow> Inr None
           | Some (group1, group2) \<Rightarrow>
               (case parse_time group1 of
                  Inl e \<Rightarrow> Inl e
                | Inr (start_h, start_m) \<Rightarrow>
                    (case parse_time group2 of
                       Inl e \<Rightarrow> Inl e
                     | Inr (end_h, end_m) \<Rightarrow>
                         Inr (Some \<lparr>days = sorted_list_of_set (resolved_days desc),
                                    start_hour = start_h, start_minute = start_m,
                                    end_hour = end_h, end_minute = end_m\<rparr>))))"
proof -
  obtain nums where nums: "lookup_days (day_matches_of desc) = Inr nums"
    "set nums = explicit_days_of desc" "nums = [] \<longleftrightarrow> day_matches_of desc = []"
    using day_matches_lookup [of desc] by blast
  have "day_matches_of desc = [] \<longleftrightarrow> explicit_days_of desc = {}"
    by (simp add: explicit_days_empty)
  with assms nums show ?thesis
    unfolding parse_sign_description_def Let_def resolved_days_def
      day_matches_of_def [symmetric]
    by (auto split: option.splits sum.splits)
qed

lemma parse_schedule:
  assumes marker: "str_in MARKER (upper desc)"
    and days: "explicit_days_of desc \<noteq> {} \<or> except_days_of (upper desc) \<noteq> {}"
    and time: "TIME_RE_search desc = Some (group1, group2)"
  shows "\<exists>hh1 mm1 ap1 hh2 mm2 ap2.
           token_parts hh1 mm1 ap1 \<and> group1 = time_token hh1 mm1 ap1 \<and>
           token_parts hh2 mm2 ap2 \<and> group2 = time_token hh2 mm2 ap2 \<and>
           parse_sign_description desc =
             Inr (Some \<lparr>days = sorted_list_of_set (resolved_days desc),
                        start_hour = twelve_hour (upper ap1 = ''PM'') (decimal hh1),
                        start_minute = (if mm1 = [] then 0 else decimal mm1),
                        end_hour = twelve_hour (upper ap2 = ''PM'') (decimal hh2),
                        end_minute = (if mm2 = [] then 0 else decimal mm2)\<rparr>)"
proof -
  from TIME_RE_groups [OF time] obtain hh1 mm1 ap1 hh2 mm2 ap2
    where t1: "token_parts hh1 mm1 ap1" "group1 = time_token hh1 mm1 ap1"
      and t2: "token_parts hh2 mm2 ap2" "group2 = time_token hh2 mm2 ap2"
    by blast
  have "parse_sign_description desc =
      Inr (Some \<lparr>days = sorted_list_of_set (resolved_days desc),
                 start_hour = twelve_hour (upper ap1 = ''PM'') (decimal hh1),
                 start_minute = (if mm1 = [] then 0 else decimal mm1),
                 end_hour = twelve_hour (upper ap2 = ''PM'') (decimal hh2),
                 end_minute = (if mm2 = [] then 0 else decimal mm2)\<rparr>)"
    using days time
    by (simp add: parse_with_marker [OF marker] t1(2) t2(2)
        parse_time_token [OF t1(1)] parse_time_token [OF t2(1)])
  with t1 t2 show ?thesis
    by blast
qed

lemma parse_some_conditions:
  assumes "parse_sign_description desc = Inr (Some schedule)"
  shows "str_in MARKER (upper desc) \<and>
         (explicit_days_of desc \<noteq> {} \<or> except_days_of (upper desc) \<noteq> {}) \<and>
         (\<exists>group1 group2. TIME_RE_search desc = Some (group1, group2))"
proof -
  have marker: "str_in MARKER (upper desc)"
    using assms by (auto simp: parse_sign_description_def split: if_splits)
  from assms show ?thesis
    unfolding parse_with_marker [OF marker] using marker
    by (auto split: if_splits option.splits)
qed

lemma day_resolution_steps:
  assumes "str_in MARKER (upper desc)"
  shows "(explicit_days_of desc \<noteq> {} \<longrightarrow> has_time_range desc \<longrightarrow>
            (\<exists>schedule. parse_sign_description desc = Inr (Some schedule) \<and>
               set (days schedule) = explicit_days_of desc - except_days_of (upper desc))) \<and>
         (explicit_days_of desc = {} \<longrightarrow> except_days_of (upper desc) \<noteq> {} \<longrightarrow>
            has_time_range desc \<longrightarrow>
            (\<exists>schedule. parse_sign_description desc = Inr (Some schedule) \<and>
               set (days schedule) = {0, 1, 2, 3, 4, 5, 6} - except_days_of (upper desc))) \<and>
         (explicit_days_of desc = {} \<longrightarrow> except_days_of (upper desc) = {} \<longrightarrow>
            parse_sign_description desc = Inr None)"
proof (intro conjI impI)
  assume "explicit_days_of desc \<noteq> {}" and "has_time_range desc"
  then obtain group1 group2 where "TIME_RE_search desc = Some (group1, group2)"
    and days: "explicit_days_of desc \<noteq> {} \<or> except_days_of (upper desc) \<noteq> {}"
    by (auto simp: has_time_range_def)
  from parse_schedule [OF assms days this(1)]
  obtain schedule where "parse_sign_description desc = Inr (Some schedule)"
    "days schedule = sorted_list_of_set (resolved_days desc)"
    by auto
  moreover have "resolved_days desc = explicit_days_of desc - except_days_of (upper desc)"
    using \<open>explicit_days_of desc \<noteq> {}\<close> by (simp add: resolved_days_def)
  ultimately show "\<exists>schedule. parse_sign_description desc = Inr (Some schedule) \<and>
      set (days schedule) = explicit_days_of desc - except_days_of (upper desc)"
    using finite_resolved_days [of desc] by auto
next
  assume none: "explicit_days_of desc = {}" and "except_days_of (upper desc) \<noteq> {}"
    and "has_time_range desc"
  then obtain group1 group2 where "TIME_RE_search desc = Some (group1, group2)"
    and days: "explicit_days_of desc \<noteq> {} \<or> except_days_of (upper desc) \<noteq> {}"
    by (auto simp: has_time_range_def)
  from parse_schedule [OF assms days this(1)]
  obtain schedule where "parse_sign_description desc = Inr (Some schedule)"
    "days schedule = sorted_list_of_set (resolved_days desc)"
    by auto
  moreover have "resolved_days desc = {0, 1, 2, 3, 4, 5, 6} - except_days_of (upper desc)"
    using none by (simp add: resolved_days_def)
  ultimately show "\<exists>schedule. parse_sign_description desc = Inr (Some schedule) \<and>
      set (days schedule) = {0, 1, 2, 3, 4, 5, 6} - except_days_of (upper desc)"
    using finite_resolved_days [of desc] by auto
next
  assume "explicit_days_of desc = {}" and "except_days_of (upper desc) = {}"
  then show "parse_sign_description desc = Inr None"
    by (simp add: parse_with_marker [OF assms])
qed

lemma explicit_days_named: "explicit_days_of desc = named_weekdays (EXCEPT_RE_sub (upper desc))"
  by (simp add: explicit_days_of_def day_matches_of_def DAY_RE_findall_named)

lemma except_days_of_iff:
  "day_num \<in> except_days_of text \<longleftrightarrow>
     (\<exists>day_name before after. (day_name, day_num) \<in> set DAYS_OF_WEEK \<and>
        text = before @ ''EXCEPT '' @ day_name @ after)"
  by (auto simp: except_days_of_def str_in_iff)

section \<open>The calculator: properties\<close>

text \<open>
  \<^bold>\<open>C1\<close> (active now). When the weekday of the reference instant is one of the schedule's
  days and the reference minute lies in the window, start inclusive and end exclusive,
  both counted in minutes since midnight, the calculator returns exactly \<^verbatim>\<open>0.0\<close>. The
  weekday of a \<^verbatim>\<open>datetime\<close> is always between 0 and 6; nothing is asked of the schedule.
\<close>

theorem active_now_returns_zero:
  assumes "0 \<le> weekday now" and "weekday now \<le> 6"
    and "weekday now \<in> set (days schedule)"
    and "start_minutes_of schedule \<le> current_minutes_of now"
    and "current_minutes_of now < end_minutes_of schedule"
  shows "hours_until_next_cleaning schedule now = Finite 0"
  using assms by (simp add: hours_unfold)

text \<open>Monday 08:00 to 11:00, on a Monday at 09:30.\<close>

theorem active_now_witness:
  "(0 \<le> weekday \<lparr>weekday = 0, hour = 9, minute = 30\<rparr> \<and>
    weekday \<lparr>weekday = 0, hour = 9, minute = 30\<rparr> \<le> 6 \<and>
    weekday \<lparr>weekday = 0, hour = 9, minute = 30\<rparr>
      \<in> set (days \<lparr>days = [0], start_hour = 8, start_minute = 0, end_hour = 11, end_minute = 0\<rparr>) \<and>
    start_minutes_of \<lparr>days = [0], start_hour = 8, start_minute = 0, end_hour = 11, end_minute = 0\<rparr>
      \<le> current_minutes_of \<lparr>weekday = 0, hour = 9, minute = 30\<rparr> \<and>
    current_minutes_of \<lparr>weekday = 0, hour = 9, minute = 30\<rparr>
      < end_minutes_of \<lparr>days = [0], start_hour = 8, start_minute = 0, end_hour = 11, end_minute = 0\<rparr>) \<and>
   hours_until_next_cleaning
     \<lparr>days = [0], start_hour = 8, start_minute = 0, end_hour = 11, end_minute = 0\<rparr>
     \<lparr>weekday = 0, hour = 9, minute = 30\<rparr> = Finite 0"
  using active_now_returns_zero
    [of "\<lparr>weekday = 0, hour = 9, minute = 30\<rparr>"
        "\<lparr>days = [0], start_hour = 8, start_minute = 0, end_hour = 11, end_minute = 0\<rparr>"]
  by (simp add: start_minutes_of_def end_minutes_of_def current_minutes_of_def)

text \<open>
  \<^bold>\<open>C2\<close> (bounds). For a schedule with at least one day, every day a weekday number,
  whose window starts at a time of day (hour 0 to 23, minute 0 to 59) and ends after it
  starts, and for every reference instant, the calculator returns a finite number of
  hours that is at least 0 and less than 168; it is never negative and never infinite.
\<close>

theorem hours_within_week:
  assumes now: "valid_datetime now"
    and nonempty: "days schedule \<noteq> []" and days: "valid_days schedule"
    and window: "window_in_day schedule"
  shows "within_week (hours_until_next_cleaning schedule now)"
proof -
  define st where "st = start_minutes_of schedule"
  define en where "en = end_minutes_of schedule"
  define cur where "cur = current_minutes_of now"
  define w where "w = weekday now"
  from window have st: "0 \<le> st" "st < 1440" "st < en"
    by (auto simp: window_in_day_def st_def en_def start_minutes_of_def)
  from now have cur: "0 \<le> cur" "cur < 1440"
    by (auto simp: valid_datetime_def cur_def current_minutes_of_def)
  from nonempty obtain d where d: "d \<in> set (days schedule)"
    by (cases "days schedule") auto
  with days have "0 \<le> d" "d \<le> 6"
    by (auto simp: valid_days_def list_all_iff)
  then obtain k where k: "k = 1 \<or> k = 2 \<or> k = 3 \<or> k = 4 \<or> k = 5 \<or> k = 6 \<or> k = 7"
    and hit: "(w + k) mod 7 = d"
    using some_offset_hits [of d w] by blast
  from hit d have active: "(w + k) mod 7 \<in> set (days schedule)"
    by simp
  have unfold: "hours_until_next_cleaning schedule now =
      offsets_loop schedule w cur st en [0, 1, 2, 3, 4, 5, 6, 7]"
    by (simp add: hours_unfold st_def en_def cur_def w_def)
  from k active st cur show ?thesis
    unfolding unfold
    by (elim disjE) (simp_all add: Let_def within_week_minutes within_week_def)
qed

text \<open>Monday 08:00 to 11:00, on a Monday at 07:00: one hour.\<close>

theorem hours_within_week_witness:
  "(valid_datetime \<lparr>weekday = 0, hour = 7, minute = 0\<rparr> \<and>
    days \<lparr>days = [0], start_hour = 8, start_minute = 0, end_hour = 11, end_minute = 0\<rparr> \<noteq> [] \<and>
    valid_days \<lparr>days = [0], start_hour = 8, start_minute = 0, end_hour = 11, end_minute = 0\<rparr> \<and>
    window_in_day \<lparr>days = [0], start_hour = 8, start_minute = 0, end_hour = 11, end_minute = 0\<rparr>) \<and>
   within_week (hours_until_next_cleaning
     \<lparr>days = [0], start_hour = 8, start_minute = 0, end_hour = 11, end_minute = 0\<rparr>
     \<lparr>weekday = 0, hour = 7, minute = 0\<rparr>) \<and>
   hours_until_next_cleaning
     \<lparr>days = [0], start_hour = 8, start_minute = 0, end_hour = 11, end_minute = 0\<rparr>
     \<lparr>weekday = 0, hour = 7, minute = 0\<rparr> = Finite 1"
proof -
  have hyps: "valid_datetime \<lparr>weekday = 0, hour = 7, minute = 0\<rparr>"
    "days \<lparr>days = [0], start_hour = 8, start_minute = 0, end_hour = 11, end_minute = 0\<rparr> \<noteq> []"
    "valid_days \<lparr>days = [0], start_hour = 8, start_minute = 0, end_hour = 11, end_minute = 0\<rparr>"
    "window_in_day \<lparr>days = [0], start_hour = 8, start_minute = 0, end_hour = 11, end_minute = 0\<rparr>"
    by (simp_all add: valid_datetime_def valid_days_def window_in_day_def start_minutes_of_def
        end_minutes_of_def)
  have "hours_until_next_cleaning
     \<lparr>days = [0], start_hour = 8, start_minute = 0, end_hour = 11, end_minute = 0\<rparr>
     \<lparr>weekday = 0, hour = 7, minute = 0\<rparr> = Finite 1"
    by code_simp
  with hyps hours_within_week [OF hyps] show ?thesis
    by simp
qed

text \<open>
  The bound needs the two conditions on the window. The parser returns a schedule for
  \<^verbatim>\<open>MONDAY 8AM-8AM\<close>, whose window is empty: on a Monday at 08:00 the calculator skips
  offset 0 and answers at offset 7 with exactly 168 hours. It also returns one for
  \<^verbatim>\<open>TUESDAY 99PM-99:30PM\<close>, whose window starts at hour 111: on a Wednesday at 00:00 the
  answer is 255 hours.
\<close>

theorem hours_bounds_counterexample:
  "parse_sign_description ''SANITATION BROOM SYMBOL MONDAY 8AM-8AM'' =
     Inr (Some \<lparr>days = [0], start_hour = 8, start_minute = 0, end_hour = 8, end_minute = 0\<rparr>) \<and>
   days \<lparr>days = [0], start_hour = 8, start_minute = 0, end_hour = 8, end_minute = 0\<rparr> \<noteq> [] \<and>
   valid_datetime \<lparr>weekday = 0, hour = 8, minute = 0\<rparr> \<and>
   hours_until_next_cleaning
     \<lparr>days = [0], start_hour = 8, start_minute = 0, end_hour = 8, end_minute = 0\<rparr>
     \<lparr>weekday = 0, hour = 8, minute = 0\<rparr> = Finite 168 \<and>
   \<not> within_week (Finite 168) \<and>
   parse_sign_description ''SANITATION BROOM SYMBOL TUESDAY 99PM-99:30PM'' =
     Inr (Some \<lparr>days = [1], start_hour = 111, start_minute = 0, end_hour = 111, end_minute = 30\<rparr>) \<and>
   valid_datetime \<lparr>weekday = 2, hour = 0, minute = 0\<rparr> \<and>
   hours_until_next_cleaning
     \<lparr>days = [1], start_hour = 111, start_minute = 0, end_hour = 111, end_minute = 30\<rparr>
     \<lparr>weekday = 2, hour = 0, minute = 0\<rparr> = Finite 255 \<and>
   \<not> within_week (Finite 255)"
  by code_simp

text \<open>
  \<^bold>\<open>C3\<close> (one-week wraparound). When the reference day is the only day of the schedule
  and the reference minute is at or past the end of the window and not before its start,
  the calculator does not return at offset 0; it answers at offset 7 with
  \<open>(7 * 1440 + start - reference minute) / 60\<close> hours. For Monday only, 08:00 to 11:00,
  on a Monday at 12:00, that is exactly 164 hours.
\<close>

theorem elapsed_only_day_wraps:
  assumes "0 \<le> weekday now" and "weekday now \<le> 6"
    and "set (days schedule) = {weekday now}"
    and "end_minutes_of schedule \<le> current_minutes_of now"
    and "start_minutes_of schedule \<le> current_minutes_of now"
  shows "hours_until_next_cleaning schedule now =
           Finite (of_int (7 * 24 * 60 + start_minutes_of schedule - current_minutes_of now) / 60)"
proof -
  define w where "w = weekday now"
  have active: "x \<in> set (days schedule) \<longleftrightarrow> x = w" for x
    using assms(3) by (simp add: w_def)
  from assms(1,2) have w: "0 \<le> w" "w \<le> 6"
    by (simp_all add: w_def)
  then have today: "w mod 7 = w"
    by simp
  from w have later: "(w + 1) mod 7 \<noteq> w" "(w + 2) mod 7 \<noteq> w" "(w + 3) mod 7 \<noteq> w"
    "(w + 4) mod 7 \<noteq> w" "(w + 5) mod 7 \<noteq> w" "(w + 6) mod 7 \<noteq> w"
    by presburger+
  have "hours_until_next_cleaning schedule now =
      offsets_loop schedule w (current_minutes_of now) (start_minutes_of schedule)
        (end_minutes_of schedule) [0, 1, 2, 3, 4, 5, 6, 7]"
    by (simp add: hours_unfold w_def)
  also have "\<dots> = Finite (of_int (7 * 24 * 60 + start_minutes_of schedule
      - current_minutes_of now) / 60)"
    using assms(4,5) by (simp add: Let_def active today later)
  finally show ?thesis .
qed

text \<open>Monday 08:00 to 11:00, on a Monday at 12:00: 164 hours.\<close>

theorem elapsed_only_day_witness:
  "(0 \<le> weekday \<lparr>weekday = 0, hour = 12, minute = 0\<rparr> \<and>
    weekday \<lparr>weekday = 0, hour = 12, minute = 0\<rparr> \<le> 6 \<and>
    set (days \<lparr>days = [0], start_hour = 8, start_minute = 0, end_hour = 11, end_minute = 0\<rparr>)
      = {weekday \<lparr>weekday = 0, hour = 12, minute = 0\<rparr>} \<and>
    end_minutes_of \<lparr>days = [0], start_hour = 8, start_minute = 0, end_hour = 11, end_minute = 0\<rparr>
      \<le> current_minutes_of \<lparr>weekday = 0, hour = 12, minute = 0\<rparr> \<and>
    start_minutes_of \<lparr>days = [0], start_hour = 8, start_minute = 0, end_hour = 11, end_minute = 0\<rparr>
      \<le> current_minutes_of \<lparr>weekday = 0, hour = 12, minute = 0\<rparr>) \<and>
   hours_until_next_cleaning
     \<lparr>days = [0], start_hour = 8, start_minute = 0, end_hour = 11, end_minute = 0\<rparr>
     \<lparr>weekday = 0, hour = 12, minute = 0\<rparr> = Finite 164"
  using elapsed_only_day_wraps
    [of "\<lparr>weekday = 0, hour = 12, minute = 0\<rparr>"
        "\<lparr>days = [0], start_hour = 8, start_minute = 0, end_hour = 11, end_minute = 0\<rparr>"]
  by (simp add: start_minutes_of_def end_minutes_of_def current_minutes_of_def)

text \<open>
  Being at or past the end of the window is not enough when the window ends before it
  starts. The parser returns such a schedule for \<^verbatim>\<open>MONDAY 11PM-6AM\<close>; on a Monday at 12:00
  the reference minute is past the end (06:00) but before the start (23:00), and the
  calculator returns 11 hours at offset 0, not the 179 hours of offset 7.
\<close>

theorem elapsed_window_counterexample:
  "parse_sign_description ''SANITATION BROOM SYMBOL MONDAY 11PM-6AM'' =
     Inr (Some \<lparr>days = [0], start_hour = 23, start_minute = 0, end_hour = 6, end_minute = 0\<rparr>) \<and>
   set (days \<lparr>days = [0], start_hour = 23, start_minute = 0, end_hour = 6, end_minute = 0\<rparr>)
     = {weekday \<lparr>weekday = 0, hour = 12, minute = 0\<rparr>} \<and>
   end_minutes_of \<lparr>days = [0], start_hour = 23, start_minute = 0, end_hour = 6, end_minute = 0\<rparr>
     \<le> current_minutes_of \<lparr>weekday = 0, hour = 12, minute = 0\<rparr> \<and>
   hours_until_next_cleaning
     \<lparr>days = [0], start_hour = 23, start_minute = 0, end_hour = 6, end_minute = 0\<rparr>
     \<lparr>weekday = 0, hour = 12, minute = 0\<rparr> = Finite 11 \<and>
   Finite 11 \<noteq> Finite (of_int (7 * 24 * 60
     + start_minutes_of \<lparr>days = [0], start_hour = 23, start_minute = 0, end_hour = 6, end_minute = 0\<rparr>
     - current_minutes_of \<lparr>weekday = 0, hour = 12, minute = 0\<rparr>) / 60)"
  by code_simp

text \<open>
  \<^bold>\<open>C6\<close> (never). For a schedule whose days are weekday numbers and a reference
  instant, the calculator returns infinity exactly when the schedule has no day: the loop
  over the eight offsets runs out only then.
\<close>

theorem empty_days_never:
  assumes "0 \<le> weekday now" and "weekday now \<le> 6" and "valid_days schedule"
  shows "hours_until_next_cleaning schedule now = Infinity \<longleftrightarrow> days schedule = []"
proof
  assume "days schedule = []"
  then show "hours_until_next_cleaning schedule now = Infinity"
    by (simp add: hours_unfold)
next
  assume inf: "hours_until_next_cleaning schedule now = Infinity"
  show "days schedule = []"
  proof (rule ccontr)
    assume "days schedule \<noteq> []"
    then obtain d where d: "d \<in> set (days schedule)"
      by (cases "days schedule") auto
    with assms(3) have "0 \<le> d" "d \<le> 6"
      by (auto simp: valid_days_def list_all_iff)
    then have "d = 0 \<or> d = 1 \<or> d = 2 \<or> d = 3 \<or> d = 4 \<or> d = 5 \<or> d = 6"
      by (rule weekday_cases)
    moreover from assms(1,2)
    have "weekday now = 0 \<or> weekday now = 1 \<or> weekday now = 2 \<or> weekday now = 3 \<or>
          weekday now = 4 \<or> weekday now = 5 \<or> weekday now = 6"
      by (rule weekday_cases)
    ultimately show False
      using inf d by (auto simp: hours_unfold Let_def split: if_splits)
  qed
qed

text \<open>A schedule without days and one with Wednesday, on a Thursday at 12:00.\<close>

theorem empty_days_never_witness:
  "(0 \<le> weekday \<lparr>weekday = 3, hour = 12, minute = 0\<rparr> \<and>
    weekday \<lparr>weekday = 3, hour = 12, minute = 0\<rparr> \<le> 6 \<and>
    valid_days \<lparr>days = [], start_hour = 8, start_minute = 0, end_hour = 11, end_minute = 0\<rparr>) \<and>
   hours_until_next_cleaning
     \<lparr>days = [], start_hour = 8, start_minute = 0, end_hour = 11, end_minute = 0\<rparr>
     \<lparr>weekday = 3, hour = 12, minute = 0\<rparr> = Infinity \<and>
   (0 \<le> weekday \<lparr>weekday = 3, hour = 12, minute = 0\<rparr> \<and>
    weekday \<lparr>weekday = 3, hour = 12, minute = 0\<rparr> \<le> 6 \<and>
    valid_days \<lparr>days = [2], start_hour = 8, start_minute = 0, end_hour = 11, end_minute = 0\<rparr>) \<and>
   hours_until_next_cleaning
     \<lparr>days = [2], start_hour = 8, start_minute = 0, end_hour = 11, end_minute = 0\<rparr>
     \<lparr>weekday = 3, hour = 12, minute = 0\<rparr> \<noteq> Infinity"
  using empty_days_never
    [of "\<lparr>weekday = 3, hour = 12, minute = 0\<rparr>"
        "\<lparr>days = [], start_hour = 8, start_minute = 0, end_hour = 11, end_minute = 0\<rparr>"]
    empty_days_never
    [of "\<lparr>weekday = 3, hour = 12, minute = 0\<rparr>"
        "\<lparr>days = [2], start_hour = 8, start_minute = 0, end_hour = 11, end_minute = 0\<rparr>"]
  by (simp add: valid_days_def)

section \<open>The parser: properties\<close>

text \<open>
  \<^bold>\<open>C7\<close> (category gate). When the upper-cased description does not contain the marker
  as a substring, the parser returns \<^verbatim>\<open>None\<close>, whatever else the description contains.
\<close>

theorem marker_gate:
  assumes "\<not> (\<exists>before after. upper desc = before @ MARKER @ after)"
  shows "parse_sign_description desc = Inr None"
  using assms by (simp add: parse_sign_description_def str_in_iff)

text \<open>A sign of another category, with a weekday and a time range.\<close>

theorem marker_gate_witness:
  "\<not> (\<exists>before after. upper ''NO PARKING MONDAY 8AM-11AM'' = before @ MARKER @ after) \<and>
   parse_sign_description ''NO PARKING MONDAY 8AM-11AM'' = Inr None"
proof -
  have "\<not> str_in MARKER (upper ''NO PARKING MONDAY 8AM-11AM'')"
    by code_simp
  with str_in_iff [of MARKER "upper ''NO PARKING MONDAY 8AM-11AM''"]
  have absent: "\<not> (\<exists>before after. upper ''NO PARKING MONDAY 8AM-11AM'' = before @ MARKER @ after)"
    by blast
  from absent marker_gate [OF absent] show ?thesis
    by simp
qed

text \<open>
  \<^bold>\<open>C4\<close> (day resolution). For an ASCII description that carries the marker: when the
  text without its exception clauses has a whole-word weekday name, the days of the
  schedule are the named weekdays minus the excepted ones; when it has none but an
  exception clause was found, they are all seven weekdays minus the excepted ones; when
  there is neither, the parser returns \<^verbatim>\<open>None\<close> at that step. A schedule is returned in the
  first two cases when the description also has a time range.

  Beyond ASCII the code does not always resolve the days. \<^verbatim>\<open>DAY_RE\<close> is compiled with
  \<^verbatim>\<open>re.IGNORECASE\<close> and is applied to the upper-cased text; the capital I with a dot above
  (U+0130) is left as it is by \<^verbatim>\<open>str.upper\<close> and matches the letter I of the pattern, so
  the match of \<^verbatim>\<open>FRIDAY\<close> written with that letter is not a key of \<^verbatim>\<open>DAYS_OF_WEEK\<close>, and
  the lookup \<^verbatim>\<open>DAYS_OF_WEEK[d.upper()]\<close> raises \<^verbatim>\<open>KeyError\<close>: the branch \<open>Inl KeyError\<close> of
  \<open>lookup_days\<close>, which no ASCII description reaches.
\<close>

lemma day_resolution:
  assumes "ascii_text desc" and "\<exists>before after. upper desc = before @ MARKER @ after"
  shows "(named_weekdays (EXCEPT_RE_sub (upper desc)) \<noteq> {} \<longrightarrow> has_time_range desc \<longrightarrow>
            (\<exists>schedule. parse_sign_description desc = Inr (Some schedule) \<and>
               set (days schedule) =
                 named_weekdays (EXCEPT_RE_sub (upper desc)) - except_days_of (upper desc))) \<and>
         (named_weekdays (EXCEPT_RE_sub (upper desc)) = {} \<longrightarrow>
            except_days_of (upper desc) \<noteq> {} \<longrightarrow> has_time_range desc \<longrightarrow>
            (\<exists>schedule. parse_sign_description desc = Inr (Some schedule) \<and>
               set (days schedule) = {0, 1, 2, 3, 4, 5, 6} - except_days_of (upper desc))) \<and>
         (named_weekdays (EXCEPT_RE_sub (upper desc)) = {} \<longrightarrow>
            except_days_of (upper desc) = {} \<longrightarrow>
            parse_sign_description desc = Inr None)"
proof -
  from assms(2) have "str_in MARKER (upper desc)"
    by (simp only: str_in_iff)
  then show ?thesis
    unfolding explicit_days_named [symmetric] by (rule day_resolution_steps)
qed

text \<open>
  Explicit days with an exception, an exception clause alone, and no day information.
\<close>

lemma day_resolution_examples:
  "((\<exists>before after.
       upper ''SANITATION BROOM SYMBOL MONDAY TUESDAY WEDNESDAY THURSDAY FRIDAY EXCEPT TUESDAY 9AM-10AM''
         = before @ MARKER @ after) \<and>
    named_weekdays (EXCEPT_RE_sub (upper
      ''SANITATION BROOM SYMBOL MONDAY TUESDAY WEDNESDAY THURSDAY FRIDAY EXCEPT TUESDAY 9AM-10AM''))
      = {0, 1, 2, 3, 4} \<and>
    except_days_of (upper
      ''SANITATION BROOM SYMBOL MONDAY TUESDAY WEDNESDAY THURSDAY FRIDAY EXCEPT TUESDAY 9AM-10AM'')
      = {1} \<and>
    has_time_range
      ''SANITATION BROOM SYMBOL MONDAY TUESDAY WEDNESDAY THURSDAY FRIDAY EXCEPT TUESDAY 9AM-10AM'') \<and>
   (\<exists>schedule.
      parse_sign_description
        ''SANITATION BROOM SYMBOL MONDAY TUESDAY WEDNESDAY THURSDAY FRIDAY EXCEPT TUESDAY 9AM-10AM''
        = Inr (Some schedule) \<and>
      set (days schedule) = {0, 2, 3, 4}) \<and>
   ((\<exists>before after. upper ''SANITATION BROOM SYMBOL EXCEPT SUNDAY 8AM-6PM'' = before @ MARKER @ after) \<and>
    named_weekdays (EXCEPT_RE_sub (upper ''SANITATION BROOM SYMBOL EXCEPT SUNDAY 8AM-6PM'')) = {} \<and>
    except_days_of (upper ''SANITATION BROOM SYMBOL EXCEPT SUNDAY 8AM-6PM'') = {6} \<and>
    has_time_range ''SANITATION BROOM SYMBOL EXCEPT SUNDAY 8AM-6PM'') \<and>
   (\<exists>schedule.
      parse_sign_description ''SANITATION BROOM SYMBOL EXCEPT SUNDAY 8AM-6PM'' = Inr (Some schedule) \<and>
      set (days schedule) = {0, 1, 2, 3, 4, 5}) \<and>
   ((\<exists>before after. upper ''SANITATION BROOM SYMBOL 8AM-6PM'' = before @ MARKER @ after) \<and>
    named_weekdays (EXCEPT_RE_sub (upper ''SANITATION BROOM SYMBOL 8AM-6PM'')) = {} \<and>
    except_days_of (upper ''SANITATION BROOM SYMBOL 8AM-6PM'') = {}) \<and>
   parse_sign_description ''SANITATION BROOM SYMBOL 8AM-6PM'' = Inr None"
proof -
  let ?d = "''SANITATION BROOM SYMBOL MONDAY TUESDAY WEDNESDAY THURSDAY FRIDAY EXCEPT TUESDAY 9AM-10AM''"
  let ?e = "''SANITATION BROOM SYMBOL EXCEPT SUNDAY 8AM-6PM''"
  let ?f = "''SANITATION BROOM SYMBOL 8AM-6PM''"
  have ascii: "ascii_text ?d" "ascii_text ?e" "ascii_text ?f"
    by code_simp+
  have "str_in MARKER (upper ?d)" "str_in MARKER (upper ?e)" "str_in MARKER (upper ?f)"
    by code_simp+
  then have marker: "\<exists>before after. upper ?d = before @ MARKER @ after"
    "\<exists>before after. upper ?e = before @ MARKER @ after"
    "\<exists>before after. upper ?f = before @ MARKER @ after"
    by (simp_all only: str_in_iff)
  have d: "named_weekdays (EXCEPT_RE_sub (upper ?d)) = {0, 1, 2, 3, 4}"
    "except_days_of (upper ?d) = {1}"
    by code_simp+
  have e: "named_weekdays (EXCEPT_RE_sub (upper ?e)) = {}"
    "except_days_of (upper ?e) = {6}"
    by code_simp+
  have time: "has_time_range ?d" "has_time_range ?e"
    by code_simp+
  have f: "named_weekdays (EXCEPT_RE_sub (upper ?f)) = {}" "except_days_of (upper ?f) = {}"
    by code_simp+
  have sets: "{0, 1, 2, 3, 4} - {1} = {0, 2, 3, 4 :: int}"
    "{0, 1, 2, 3, 4, 5, 6} - {6} = {0, 1, 2, 3, 4, 5 :: int}"
    by auto
  from day_resolution [OF ascii(1) marker(1)] day_resolution [OF ascii(2) marker(2)]
    day_resolution [OF ascii(3) marker(3)]
  show ?thesis
    unfolding d e f sets using marker time by simp
qed

text \<open>
  The lookup raises for a match that is not a key once it is upper-cased, and the
  exception leaves the parser: no \<^verbatim>\<open>try\<close> surrounds line 72.
\<close>

lemma lookup_days_KeyError:
  "map_of DAYS_OF_WEEK (upper d) = None \<Longrightarrow> lookup_days (d # ds) = Inl KeyError"
  by simp

text \<open>
  \<^bold>\<open>C5\<close> (time tokens). For every token \<^verbatim>\<open>H[:MM](AM|PM)\<close>, with one or two hour
  digits, two minute digits or none, and the marker in any letter case, \<^verbatim>\<open>_parse_time\<close>
  returns the minute \<^verbatim>\<open>MM\<close> (0 when absent) and the hour given by the 12-hour rule.
\<close>

theorem parse_time_twelve_hour_rule:
  assumes "token_parts hh mm ap"
  shows "parse_time (time_token hh mm ap) =
           Inr (twelve_hour (upper ap = ''PM'') (decimal hh), if mm = [] then 0 else decimal mm)"
  using assms by (rule parse_time_token)

text \<open>Midnight, noon, an evening time with minutes and a morning hour.\<close>

theorem parse_time_witness:
  "token_parts ''12'' ''30'' ''am'' \<and> parse_time ''12:30am'' = Inr (0, 30) \<and>
   token_parts ''12'' [] ''PM'' \<and> parse_time ''12PM'' = Inr (12, 0) \<and>
   token_parts ''7'' ''05'' ''Pm'' \<and> parse_time ''7:05Pm'' = Inr (19, 5) \<and>
   token_parts ''9'' [] ''AM'' \<and> parse_time ''9AM'' = Inr (9, 0)"
proof -
  have parts: "token_parts ''12'' ''30'' ''am''" "token_parts ''12'' [] ''PM''"
    "token_parts ''7'' ''05'' ''Pm''" "token_parts ''9'' [] ''AM''"
    by code_simp+
  have vals: "twelve_hour (upper ''am'' = ''PM'') (decimal ''12'') = 0" "decimal ''30'' = 30"
    "twelve_hour (upper ''PM'' = ''PM'') (decimal ''12'') = 12"
    "twelve_hour (upper ''Pm'' = ''PM'') (decimal ''7'') = 19" "decimal ''05'' = 5"
    "twelve_hour (upper ''AM'' = ''PM'') (decimal ''9'') = 9"
    by code_simp+
  from parts parse_time_twelve_hour_rule [OF parts(1)] parse_time_twelve_hour_rule [OF parts(2)]
    parse_time_twelve_hour_rule [OF parts(3)] parse_time_twelve_hour_rule [OF parts(4)]
  show ?thesis
    by (simp add: vals time_token_def)
qed

text \<open>
  \<^bold>\<open>C8\<close> (window fields). The parser does not validate the window. The window of
  every schedule it returns is the first time range of the description as \<^verbatim>\<open>_parse_time\<close>
  reads its two tokens, whatever their order; its start and end hours are between 0 and
  111 and its minutes between 0 and 99: the values of one or two digits, with 12 added to
  a PM hour other than 12.
\<close>

theorem schedule_window_range:
  assumes "parse_sign_description desc = Inr (Some schedule)"
  shows "(\<exists>group1 group2. TIME_RE_search desc = Some (group1, group2) \<and>
            parse_time group1 = Inr (start_hour schedule, start_minute schedule) \<and>
            parse_time group2 = Inr (end_hour schedule, end_minute schedule)) \<and>
         0 \<le> start_hour schedule \<and> start_hour schedule \<le> 111 \<and>
         0 \<le> start_minute schedule \<and> start_minute schedule \<le> 99 \<and>
         0 \<le> end_hour schedule \<and> end_hour schedule \<le> 111 \<and>
         0 \<le> end_minute schedule \<and> end_minute schedule \<le> 99"
proof -
  from parse_some_conditions [OF assms] obtain group1 group2
    where marker: "str_in MARKER (upper desc)"
      and days: "explicit_days_of desc \<noteq> {} \<or> except_days_of (upper desc) \<noteq> {}"
      and time: "TIME_RE_search desc = Some (group1, group2)"
    by blast
  from parse_schedule [OF marker days time] assms
  obtain hh1 mm1 ap1 hh2 mm2 ap2 where t1: "token_parts hh1 mm1 ap1"
    and t2: "token_parts hh2 mm2 ap2"
    and groups: "group1 = time_token hh1 mm1 ap1" "group2 = time_token hh2 mm2 ap2"
    and fields: "start_hour schedule = twelve_hour (upper ap1 = ''PM'') (decimal hh1)"
      "start_minute schedule = (if mm1 = [] then 0 else decimal mm1)"
      "end_hour schedule = twelve_hour (upper ap2 = ''PM'') (decimal hh2)"
      "end_minute schedule = (if mm2 = [] then 0 else decimal mm2)"
    by auto
  have "parse_time group1 = Inr (start_hour schedule, start_minute schedule)"
    "parse_time group2 = Inr (end_hour schedule, end_minute schedule)"
    unfolding groups fields by (simp_all only: parse_time_token [OF t1] parse_time_token [OF t2])
  with time have "\<exists>group1 group2. TIME_RE_search desc = Some (group1, group2) \<and>
      parse_time group1 = Inr (start_hour schedule, start_minute schedule) \<and>
      parse_time group2 = Inr (end_hour schedule, end_minute schedule)"
    by blast
  with token_range [OF t1] token_range [OF t2] show ?thesis
    unfolding fields by simp
qed

text \<open>The largest hour and the largest minute the parser can produce.\<close>

theorem schedule_window_witness:
  "parse_sign_description ''SANITATION BROOM SYMBOL MONDAY 99PM-8:99AM'' =
     Inr (Some \<lparr>days = [0], start_hour = 111, start_minute = 0, end_hour = 8, end_minute = 99\<rparr>) \<and>
   0 \<le> start_hour \<lparr>days = [0], start_hour = 111, start_minute = 0, end_hour = 8, end_minute = 99\<rparr> \<and>
   start_hour \<lparr>days = [0], start_hour = 111, start_minute = 0, end_hour = 8, end_minute = 99\<rparr> \<le> 111 \<and>
   end_minute \<lparr>days = [0], start_hour = 111, start_minute = 0, end_hour = 8, end_minute = 99\<rparr> \<le> 99"
proof -
  have parsed: "parse_sign_description ''SANITATION BROOM SYMBOL MONDAY 99PM-8:99AM'' =
     Inr (Some \<lparr>days = [0], start_hour = 111, start_minute = 0, end_hour = 8, end_minute = 99\<rparr>)"
    by code_simp
  from parsed schedule_window_range [OF parsed] show ?thesis
    by simp
qed

text \<open>
  A first time range that ends before it starts is not rejected: \<^verbatim>\<open>11AM-8AM\<close> yields the
  schedule 11:00 to 08:00. Hours above 23 and minutes above 59 are accepted as well:
  \<^verbatim>\<open>13PM-99:99AM\<close> yields 25:00 to 99:99.
\<close>

theorem schedule_window_counterexample:
  "parse_sign_description ''SANITATION BROOM SYMBOL MONDAY 11AM-8AM'' =
     Inr (Some \<lparr>days = [0], start_hour = 11, start_minute = 0, end_hour = 8, end_minute = 0\<rparr>) \<and>
   \<not> start_minutes_of \<lparr>days = [0], start_hour = 11, start_minute = 0, end_hour = 8, end_minute = 0\<rparr>
       < end_minutes_of \<lparr>days = [0], start_hour = 11, start_minute = 0, end_hour = 8, end_minute = 0\<rparr> \<and>
   parse_sign_description ''SANITATION BROOM SYMBOL MONDAY 13PM-99:99AM'' =
     Inr (Some \<lparr>days = [0], start_hour = 25, start_minute = 0, end_hour = 99, end_minute = 99\<rparr>) \<and>
   \<not> valid_window \<lparr>days = [0], start_hour = 25, start_minute = 0, end_hour = 99, end_minute = 99\<rparr>"
  by code_simp

text \<open>
  \<^bold>\<open>C9\<close> (outcome). For every ASCII description the parser raises no exception and
  returns either a schedule or \<^verbatim>\<open>None\<close>: a schedule exactly when the marker is present, a
  weekday or an exception clause was found, and a time range was found; \<^verbatim>\<open>None\<close> in every
  other case. Nothing is said here of text beyond ASCII, where the lookup of a matched
  day can raise.
\<close>

theorem parse_outcome:
  assumes "ascii_text desc"
  shows "if str_in MARKER (upper desc) \<and>
            (explicit_days_of desc \<noteq> {} \<or> except_days_of (upper desc) \<noteq> {}) \<and>
            has_time_range desc
         then \<exists>schedule. parse_sign_description desc = Inr (Some schedule)
         else parse_sign_description desc = Inr None"
proof (cases "str_in MARKER (upper desc)")
  case False
  then show ?thesis
    by (simp add: parse_sign_description_def)
next
  case marker: True
  show ?thesis
  proof (cases "explicit_days_of desc \<noteq> {} \<or> except_days_of (upper desc) \<noteq> {}")
    case False
    then show ?thesis
      by (simp add: parse_with_marker [OF marker])
  next
    case days: True
    show ?thesis
    proof (cases "TIME_RE_search desc")
      case None
      with days show ?thesis
        by (simp add: parse_with_marker [OF marker] has_time_range_def)
    next
      case (Some groups)
      then obtain group1 group2 where "TIME_RE_search desc = Some (group1, group2)"
        by (cases groups) auto
      from parse_schedule [OF marker days this] marker days Some show ?thesis
        by (auto simp: has_time_range_def)
    qed
  qed
qed

text \<open>A description that yields a schedule and one that lacks a time range.\<close>

theorem parse_outcome_witness:
  "(ascii_text ''SANITATION BROOM SYMBOL MONDAY 8AM-11AM'' \<and>
    str_in MARKER (upper ''SANITATION BROOM SYMBOL MONDAY 8AM-11AM'') \<and>
    explicit_days_of ''SANITATION BROOM SYMBOL MONDAY 8AM-11AM'' \<noteq> {} \<and>
    has_time_range ''SANITATION BROOM SYMBOL MONDAY 8AM-11AM'') \<and>
   (\<exists>schedule. parse_sign_description ''SANITATION BROOM SYMBOL MONDAY 8AM-11AM'' =
      Inr (Some schedule)) \<and>
   (ascii_text ''SANITATION BROOM SYMBOL MONDAY'' \<and>
    \<not> has_time_range ''SANITATION BROOM SYMBOL MONDAY'') \<and>
   parse_sign_description ''SANITATION BROOM SYMBOL MONDAY'' = Inr None"
proof -
  have ascii: "ascii_text ''SANITATION BROOM SYMBOL MONDAY 8AM-11AM''"
    "ascii_text ''SANITATION BROOM SYMBOL MONDAY''"
    by code_simp+
  have yes: "str_in MARKER (upper ''SANITATION BROOM SYMBOL MONDAY 8AM-11AM'')"
    "explicit_days_of ''SANITATION BROOM SYMBOL MONDAY 8AM-11AM'' \<noteq> {}"
    "has_time_range ''SANITATION BROOM SYMBOL MONDAY 8AM-11AM''"
    by code_simp+
  have no: "\<not> has_time_range ''SANITATION BROOM SYMBOL MONDAY''"
    by code_simp
  from ascii yes no parse_outcome [OF ascii(1)] parse_outcome [OF ascii(2)]
  show ?thesis
    by simp
qed

text \<open>
  The three reasons for failure are not told apart. Three ASCII descriptions, one
  without the marker, one with the marker but no day information, and one with marker
  and day but no time range, all return the same value \<^verbatim>\<open>None\<close>.
\<close>

theorem parse_outcome_counterexample:
  "ascii_text ''NO PARKING MONDAY 8AM-11AM'' \<and>
   ascii_text ''SANITATION BROOM SYMBOL 8AM-11AM'' \<and>
   ascii_text ''SANITATION BROOM SYMBOL MONDAY'' \<and>
   \<not> str_in MARKER (upper ''NO PARKING MONDAY 8AM-11AM'') \<and>
   parse_sign_description ''NO PARKING MONDAY 8AM-11AM'' = Inr None \<and>
   str_in MARKER (upper ''SANITATION BROOM SYMBOL 8AM-11AM'') \<and>
   explicit_days_of ''SANITATION BROOM SYMBOL 8AM-11AM'' = {} \<and>
   except_days_of (upper ''SANITATION BROOM SYMBOL 8AM-11AM'') = {} \<and>
   parse_sign_description ''SANITATION BROOM SYMBOL 8AM-11AM'' = Inr None \<and>
   str_in MARKER (upper ''SANITATION BROOM SYMBOL MONDAY'') \<and>
   explicit_days_of ''SANITATION BROOM SYMBOL MONDAY'' \<noteq> {} \<and>
   \<not> has_time_range ''SANITATION BROOM SYMBOL MONDAY'' \<and>
   parse_sign_description ''SANITATION BROOM SYMBOL MONDAY'' = Inr None \<and>
   parse_sign_description ''NO PARKING MONDAY 8AM-11AM'' =
     parse_sign_description ''SANITATION BROOM SYMBOL 8AM-11AM'' \<and>
   parse_sign_description ''SANITATION BROOM SYMBOL 8AM-11AM'' =
     parse_sign_description ''SANITATION BROOM SYMBOL MONDAY''"
  by code_simp

text \<open>
  \<^bold>\<open>C10\<close> (days). The days of every schedule the parser returns are strictly
  ascending, hence free of duplicates, and each lies between 0 (Monday) and 6 (Sunday).
\<close>

theorem days_ascending_in_range:
  assumes "parse_sign_description desc = Inr (Some schedule)"
  shows "sorted_wrt (<) (days schedule) \<and> distinct (days schedule) \<and>
         list_all (\<lambda>d. 0 \<le> d \<and> d \<le> 6) (days schedule)"
proof -
  from parse_some_conditions [OF assms] obtain group1 group2
    where marker: "str_in MARKER (upper desc)"
      and days: "explicit_days_of desc \<noteq> {} \<or> except_days_of (upper desc) \<noteq> {}"
      and time: "TIME_RE_search desc = Some (group1, group2)"
    by blast
  from parse_schedule [OF marker days time] assms
  have eq: "days schedule = sorted_list_of_set (resolved_days desc)"
    by auto
  have "set (days schedule) = resolved_days desc"
    unfolding eq using finite_resolved_days by simp
  then have "list_all (\<lambda>d. 0 \<le> d \<and> d \<le> 6) (days schedule)"
    by (auto simp: list_all_iff dest: resolved_days_range)
  then show ?thesis
    unfolding eq by (simp add: strict_sorted_list_of_set)
qed

text \<open>Days named out of order, twice and in mixed case.\<close>

theorem days_ascending_witness:
  "parse_sign_description ''SANITATION BROOM SYMBOL FRIDAY & monday, Monday EXCEPT SUNDAY 8AM-11AM'' =
     Inr (Some \<lparr>days = [0, 4], start_hour = 8, start_minute = 0, end_hour = 11, end_minute = 0\<rparr>) \<and>
   sorted_wrt (<) (days \<lparr>days = [0, 4], start_hour = 8, start_minute = 0, end_hour = 11, end_minute = 0\<rparr>) \<and>
   distinct (days \<lparr>days = [0, 4], start_hour = 8, start_minute = 0, end_hour = 11, end_minute = 0\<rparr>) \<and>
   list_all (\<lambda>d. 0 \<le> d \<and> d \<le> 6)
     (days \<lparr>days = [0, 4], start_hour = 8, start_minute = 0, end_hour = 11, end_minute = 0\<rparr>)"
proof -
  have parsed: "parse_sign_description
      ''SANITATION BROOM SYMBOL FRIDAY & monday, Monday EXCEPT SUNDAY 8AM-11AM'' =
     Inr (Some \<lparr>days = [0, 4], start_hour = 8, start_minute = 0, end_hour = 11, end_minute = 0\<rparr>)"
    by code_simp
  from parsed days_ascending_in_range [OF parsed] show ?thesis
    by simp
qed

end
